theory Spec2Isabelle
  imports Complex_Main "HOL-Library.Log_Nat"
begin

section \<open>Python numbers\<close>

text \<open>
  Both scripts compute on Python integers (unbounded, \<^typ>\<open>int\<close>) and Python floats
  (IEEE 754 binary64, round to nearest, ties to even). A finite float is modelled by the
  rational number it denotes; the result of a float operation is the exact rational result
  rounded by \<open>round_double\<close>, which may overflow to an infinity.
\<close>

datatype py_error = IndexError | OverflowError | ZeroDivisionError | StatisticsError

datatype pyfloat = Fin rat | PInf | NInf

definition py_bind :: "py_error + 'a \<Rightarrow> ('a \<Rightarrow> py_error + 'b) \<Rightarrow> py_error + 'b" where
  "py_bind r f = (case r of Inl e \<Rightarrow> Inl e | Inr x \<Rightarrow> f x)"

text \<open>\<open>ilog2 x\<close> is the binary exponent of a non-zero \<open>x\<close>: \<open>2^e \<le> |x| < 2^(e+1)\<close>.\<close>

definition ilog2 :: "rat \<Rightarrow> int" where
  "ilog2 x = (let (a, b) = quotient_of \<bar>x\<bar>; e = bitlen a - bitlen b
              in if 2 powi e \<le> \<bar>x\<bar> then e else e - 1)"

definition round_half_even :: "rat \<Rightarrow> int" where
  "round_half_even x = (let n = \<lfloor>x\<rfloor>; r = x - of_int n
     in if r < 1 / 2 then n else if 1 / 2 < r then n + 1 else if even n then n else n + 1)"

text \<open>The spacing of binary64 numbers around \<open>x\<close>: 53 significant bits, and the
  subnormal spacing \<open>2^-1074\<close> below \<open>2^-1022\<close>.\<close>

definition quantum :: "rat \<Rightarrow> rat" where
  "quantum x = 2 powi (max (ilog2 x) (- 1022) - 52)"

definition round_unb :: "rat \<Rightarrow> rat" where
  "round_unb x = (if x = 0 then 0 else
     let q = quantum x in of_int (round_half_even (x / q)) * q)"

definition round_double :: "rat \<Rightarrow> pyfloat" where
  "round_double x = (let y = round_unb x
     in if 2 powi 1024 \<le> y then PInf else if y \<le> - (2 powi 1024) then NInf else Fin y)"

text \<open>A decimal float literal of the source denotes the nearest binary64 number.\<close>

definition float_lit :: "rat \<Rightarrow> rat" where
  "float_lit x = round_unb x"

text \<open>Conversion of an int operand to float: \<open>OverflowError\<close> when it is too large.\<close>

definition float_of_int :: "int \<Rightarrow> py_error + rat" where
  "float_of_int n = (case round_double (of_int n) of Fin y \<Rightarrow> Inr y | _ \<Rightarrow> Inl OverflowError)"

definition fmul :: "rat \<Rightarrow> rat \<Rightarrow> pyfloat" where
  "fmul a b = round_double (a * b)"

fun fadd :: "pyfloat \<Rightarrow> rat \<Rightarrow> pyfloat" where
  "fadd (Fin a) b = round_double (a + b)"
| "fadd PInf b = PInf"
| "fadd NInf b = NInf"

text \<open>Division of a float by a positive finite float.\<close>

fun fdiv :: "pyfloat \<Rightarrow> rat \<Rightarrow> pyfloat" where
  "fdiv (Fin a) b = round_double (a / b)"
| "fdiv PInf b = PInf"
| "fdiv NInf b = NInf"

text \<open>Multiplication of a float by a positive finite float.\<close>

fun fscale :: "pyfloat \<Rightarrow> rat \<Rightarrow> pyfloat" where
  "fscale (Fin a) b = round_double (a * b)"
| "fscale PInf b = PInf"
| "fscale NInf b = NInf"

fun flt :: "pyfloat \<Rightarrow> rat \<Rightarrow> bool" where
  "flt (Fin a) b = (a < b)"
| "flt PInf b = False"
| "flt NInf b = True"

fun fgt :: "pyfloat \<Rightarrow> rat \<Rightarrow> bool" where
  "fgt (Fin a) b = (b < a)"
| "fgt PInf b = True"
| "fgt NInf b = False"

definition trunc :: "rat \<Rightarrow> int" where
  "trunc y = (if 0 \<le> y then \<lfloor>y\<rfloor> else \<lceil>y\<rceil>)"

text \<open>\<open>int(f)\<close> truncates towards zero and raises \<open>OverflowError\<close> on an infinity.\<close>

fun int_of_float :: "pyfloat \<Rightarrow> py_error + int" where
  "int_of_float (Fin y) = Inr (trunc y)"
| "int_of_float PInf = Inl OverflowError"
| "int_of_float NInf = Inl OverflowError"

text \<open>\<open>int(n * c)\<close> for an int \<open>n\<close> and a float \<open>c\<close>.\<close>

definition int_mul_float :: "int \<Rightarrow> rat \<Rightarrow> py_error + int" where
  "int_mul_float n c = py_bind (float_of_int n) (\<lambda>a. int_of_float (fmul a c))"

text \<open>\<open>a / b\<close> on ints: the correctly rounded quotient.\<close>

definition int_truediv :: "int \<Rightarrow> int \<Rightarrow> py_error + rat" where
  "int_truediv a b = (if b = 0 then Inl ZeroDivisionError else
     case round_double (of_int a / of_int b) of Fin y \<Rightarrow> Inr y | _ \<Rightarrow> Inl OverflowError)"

text \<open>\<open>math.pow(x, k)\<close> for a positive float \<open>x\<close> and an int \<open>k\<close>. The exponent is
  first converted to a float, which raises \<open>OverflowError\<close> when it is too large; the
  converted exponent \<open>y\<close> is a whole number. The result is the power rounded to binary64:
  it is exact whenever the power is representable, as \<open>1.125^k\<close> is for \<open>k\<close> from 0 to 16.
  Where the power is not representable the platform's \<open>pow\<close> can be one unit in the last
  place away from the nearest binary64 number, which is what the model takes; the
  theorems on such exponents state bounds only. Overflow raises \<open>OverflowError\<close>,
  underflow does not.\<close>

definition math_pow :: "rat \<Rightarrow> int \<Rightarrow> py_error + rat" where
  "math_pow x k = py_bind (float_of_int k) (\<lambda>y.
     case round_double (x powi \<lfloor>y\<rfloor>) of Fin p \<Rightarrow> Inr p | _ \<Rightarrow> Inl OverflowError)"

text \<open>\<open>sum(xs)\<close> over floats: left-to-right additions starting from 0, each one
  rounded (CPython up to 3.11; later versions compensate the rounding errors, with the same
  result wherever every partial sum is exact).\<close>

definition py_sum :: "rat list \<Rightarrow> pyfloat" where
  "py_sum xs = foldl fadd (Fin 0) xs"

text \<open>\<open>xs[-1]\<close> and \<open>xs[0]\<close>.\<close>

definition py_last :: "'a list \<Rightarrow> py_error + 'a" where
  "py_last xs = (if xs = [] then Inl IndexError else Inr (last xs))"

definition py_first :: "'a list \<Rightarrow> py_error + 'a" where
  "py_first xs = (case xs of [] \<Rightarrow> Inl IndexError | x # _ \<Rightarrow> Inr x)"

text \<open>\<open>[r[i] for r in rewards]\<close>: \<open>IndexError\<close> at the first row that is too short.\<close>

fun column :: "nat \<Rightarrow> int list list \<Rightarrow> py_error + int list" where
  "column i [] = Inr []"
| "column i (r # rs) =
     (if i < length r then py_bind (column i rs) (\<lambda>c. Inr (r ! i # c)) else Inl IndexError)"

text \<open>\<open>int(statistics.median(data))\<close>: the middle element of the sorted data for an odd
  length, the float \<open>(data[i - 1] + data[i]) / 2\<close> truncated for an even length.\<close>

datatype pynum = IntV int | FloatV rat

definition median :: "int list \<Rightarrow> py_error + pynum" where
  "median data = (let d = sort data; n = length d in
     if n = 0 then Inl StatisticsError
     else if n mod 2 = 1 then Inr (IntV (d ! (n div 2)))
     else py_bind (int_truediv (d ! (n div 2 - 1) + d ! (n div 2)) 2) (\<lambda>m. Inr (FloatV m)))"

fun py_int :: "pynum \<Rightarrow> int" where
  "py_int (IntV n) = n"
| "py_int (FloatV y) = trunc y"

definition int_median :: "int list \<Rightarrow> py_error + int" where
  "int_median data = py_bind (median data) (\<lambda>m. Inr (py_int m))"

text \<open>The standard statistical median, as the specification words it: the middle value
  of the sorted column for an odd length, the average of the two middle values for an even
  length. It is the exact rational, to be compared with \<open>median\<close> above.\<close>

definition standard_median :: "int list \<Rightarrow> rat" where
  "standard_median xs = (let s = sort xs; n = length s in
     if odd n then of_int (s ! (n div 2))
     else (of_int (s ! (n div 2 - 1)) + of_int (s ! (n div 2))) / 2)"

text \<open>The projected base fee as the specification words it:
  \<open>floor(nextBlockBaseFee * 1.125^k)\<close>, in exact arithmetic.\<close>

definition drift_floor :: "int \<Rightarrow> int \<Rightarrow> int" where
  "drift_floor base k = \<lfloor>of_int base * (9 / 8 :: rat) powi k\<rfloor>"

section \<open>The fee history\<close>

record fee_history =
  baseFeePerGas :: "int list"
  reward :: "int list list"
  gasUsedRatio :: "rat list"

definition avg_congestion :: "rat list \<Rightarrow> py_error + pyfloat" where
  "avg_congestion gas_used_ratios =
     (if gas_used_ratios = [] then Inl ZeroDivisionError
      else py_bind (float_of_int (int (length gas_used_ratios)))
             (\<lambda>n. Inr (fdiv (py_sum gas_used_ratios) n)))"

section \<open>predict\_fees.py: four tiers\<close>

definition calculate_max_base_fee :: "int \<Rightarrow> int \<Rightarrow> py_error + int" where
  "calculate_max_base_fee current_base blocks_ahead =
     py_bind (math_pow (float_lit (1125 / 1000)) blocks_ahead) (\<lambda>multiplier.
       int_mul_float current_base multiplier)"

text \<open>The pass that enforces a minimum improvement between the smoothed tips.\<close>

definition enforce_minimum :: "int \<Rightarrow> int \<Rightarrow> int \<Rightarrow> int \<Rightarrow> py_error + int \<times> int \<times> int \<times> int" where
  "enforce_minimum median_tip_30 m60 m75 m90 =
     py_bind (if m60 \<le> median_tip_30
              then (if median_tip_30 > 0 then int_mul_float median_tip_30 (float_lit (12 / 10))
                    else Inr 1000000000)
              else Inr m60) (\<lambda>median_tip_60.
     py_bind (if m75 \<le> median_tip_60 then int_mul_float median_tip_60 (float_lit (115 / 100))
              else Inr m75) (\<lambda>median_tip_75.
     py_bind (if m90 \<le> median_tip_75
              then (if median_tip_75 > 0 then int_mul_float median_tip_75 (float_lit (12 / 10))
                    else Inr 1500000000)
              else Inr m90) (\<lambda>median_tip_90.
     Inr (median_tip_30, median_tip_60, median_tip_75, median_tip_90))))"

definition congestion_multiplier :: "pyfloat \<Rightarrow> rat" where
  "congestion_multiplier avg =
     (if flt avg (float_lit (45 / 100)) then float_lit (95 / 100)
      else if fgt avg (float_lit (80 / 100)) then float_lit (125 / 100)
      else float_lit 1)"

text \<open>Applying the congestion multiplier to the four tips.\<close>

definition apply_congestion :: "rat \<Rightarrow> int \<times> int \<times> int \<times> int \<Rightarrow> py_error + int \<times> int \<times> int \<times> int" where
  "apply_congestion c t = (case t of (t30, t60, t75, t90) \<Rightarrow>
     py_bind (int_mul_float t30 c) (\<lambda>median_tip_30.
     py_bind (int_mul_float t60 c) (\<lambda>median_tip_60.
     py_bind (int_mul_float t75 c) (\<lambda>median_tip_75.
     py_bind (int_mul_float t90 c) (\<lambda>median_tip_90.
     Inr (median_tip_30, median_tip_60, median_tip_75, median_tip_90))))))"

record tiers =
  median_tip_30 :: int
  median_tip_60 :: int
  median_tip_75 :: int
  median_tip_90 :: int
  max_fee_saver :: int
  max_fee_std :: int
  max_fee_rec :: int
  max_fee_urgent :: int

text \<open>Steps 3 and 4 of the script: the smoothed, ordered and congestion-adjusted tips.\<close>

definition smoothed_tips :: "fee_history \<Rightarrow> py_error + int \<times> int \<times> int \<times> int" where
  "smoothed_tips d =
     py_bind (column 0 (reward d)) (\<lambda>tips_30.
     py_bind (column 1 (reward d)) (\<lambda>tips_60.
     py_bind (column 2 (reward d)) (\<lambda>tips_75.
     py_bind (column 3 (reward d)) (\<lambda>tips_90.
     py_bind (int_median tips_30) (\<lambda>m30.
     py_bind (int_median tips_60) (\<lambda>m60.
     py_bind (int_median tips_75) (\<lambda>m75.
     py_bind (int_median tips_90) (\<lambda>m90.
     enforce_minimum m30 m60 m75 m90))))))))"

definition adjusted_tips :: "fee_history \<Rightarrow> py_error + int \<times> int \<times> int \<times> int" where
  "adjusted_tips d =
     py_bind (smoothed_tips d) (\<lambda>t.
     py_bind (avg_congestion (gasUsedRatio d)) (\<lambda>avg.
     apply_congestion (congestion_multiplier avg) t))"

text \<open>\<open>wei / 1e9\<close>, the float that the script prints for an amount in wei: the int is
  converted to a float, which raises \<open>OverflowError\<close> when it is too large. The rendering
  of the float as text is left out.\<close>

definition gwei :: "int \<Rightarrow> py_error + pyfloat" where
  "gwei wei = py_bind (float_of_int wei) (\<lambda>w. Inr (fdiv (Fin w) (float_lit 1000000000)))"

text \<open>The script from the fetched history to the four tiers it computes, with the print of
  the next-block base fee in gwei that comes before the rewards are read.\<close>

definition predict_fees :: "fee_history \<Rightarrow> py_error + tiers" where
  "predict_fees d =
     py_bind (py_last (baseFeePerGas d)) (\<lambda>next_block_base_fee.
     py_bind (gwei next_block_base_fee) (\<lambda>shown.
     py_bind (adjusted_tips d) (\<lambda>t. case t of (t30, t60, t75, t90) \<Rightarrow>
     py_bind (calculate_max_base_fee next_block_base_fee 2) (\<lambda>max_base_saver.
     py_bind (calculate_max_base_fee next_block_base_fee 4) (\<lambda>max_base_std.
     py_bind (calculate_max_base_fee next_block_base_fee 6) (\<lambda>max_base_rec.
     py_bind (calculate_max_base_fee next_block_base_fee 10) (\<lambda>max_base_urgent.
     Inr \<lparr>median_tip_30 = t30, median_tip_60 = t60, median_tip_75 = t75, median_tip_90 = t90,
          max_fee_saver = max_base_saver + t30, max_fee_std = max_base_std + t60,
          max_fee_rec = max_base_rec + t75, max_fee_urgent = max_base_urgent + t90\<rparr>)))))))"

text \<open>The table printed at the end: for each tier the max fee and the tip in gwei and the
  estimated cost of a transfer in dollars. Each of them converts an int to a float.\<close>

definition fmt_gwei :: "int \<Rightarrow> py_error + pyfloat" where
  "fmt_gwei wei = gwei wei"

definition calculate_cost_usd :: "int \<Rightarrow> py_error + pyfloat" where
  "calculate_cost_usd gas_price_wei =
     py_bind (float_of_int (gas_price_wei * 21000)) (\<lambda>c.
     py_bind (float_of_int 2500) (\<lambda>eth_price.
     Inr (fscale (fdiv (Fin c) (float_lit 1000000000000000000)) eth_price)))"

definition print_row :: "int \<Rightarrow> int \<Rightarrow> py_error + unit" where
  "print_row max_fee tip =
     py_bind (fmt_gwei max_fee) (\<lambda>shown_fee.
     py_bind (fmt_gwei tip) (\<lambda>shown_tip.
     py_bind (calculate_cost_usd max_fee) (\<lambda>shown_cost. Inr ())))"

definition print_table :: "tiers \<Rightarrow> py_error + unit" where
  "print_table t =
     py_bind (print_row (max_fee_saver t) (median_tip_30 t)) (\<lambda>row1.
     py_bind (print_row (max_fee_std t) (median_tip_60 t)) (\<lambda>row2.
     py_bind (print_row (max_fee_rec t) (median_tip_75 t)) (\<lambda>row3.
     print_row (max_fee_urgent t) (median_tip_90 t))))"

text \<open>The whole script: the tiers it has printed, or the error it raised.\<close>

definition predict_fees_script :: "fee_history \<Rightarrow> py_error + tiers" where
  "predict_fees_script d =
     py_bind (predict_fees d) (\<lambda>t. py_bind (print_table t) (\<lambda>done. Inr t))"

section \<open>optimized\_predict\_fees.py: one tier\<close>

record estimate =
  base_fee_next :: int
  priority_fee_suggested :: int
  max_fee_per_gas :: int
  congestion :: pyfloat

text \<open>\<open>base_fees[-6:-1]\<close>\<close>

definition recent_window :: "int list \<Rightarrow> int list" where
  "recent_window base_fees = butlast (drop (length base_fees - 6) base_fees)"

definition is_increasing :: "int list \<Rightarrow> py_error + bool" where
  "is_increasing base_fees =
     py_bind (py_last (recent_window base_fees)) (\<lambda>l.
     py_bind (py_first (recent_window base_fees)) (\<lambda>f. Inr (l > f)))"

definition adjust_priority_fee :: "pyfloat \<Rightarrow> int \<Rightarrow> py_error + int" where
  "adjust_priority_fee avg suggested_priority_fee =
     (if fgt avg (float_lit (8 / 10)) then int_mul_float suggested_priority_fee (float_lit (12 / 10))
      else if flt avg (float_lit (3 / 10)) then int_mul_float suggested_priority_fee (float_lit (9 / 10))
      else Inr suggested_priority_fee)"

definition base_fee_multiplier :: "bool \<Rightarrow> pyfloat \<Rightarrow> rat" where
  "base_fee_multiplier increasing avg =
     (if \<not> increasing \<and> flt avg (float_lit (5 / 10)) then float_lit (15 / 10) else float_lit 2)"

text \<open>\<open>int((next_block_base_fee * base_fee_multiplier) + suggested_priority_fee)\<close>\<close>

definition max_fee_calc :: "int \<Rightarrow> rat \<Rightarrow> int \<Rightarrow> py_error + int" where
  "max_fee_calc next_block_base_fee mult suggested_priority_fee =
     py_bind (float_of_int next_block_base_fee) (\<lambda>b.
     py_bind (float_of_int suggested_priority_fee) (\<lambda>p.
     int_of_float (fadd (fmul b mult) p)))"

definition calculate_fees :: "fee_history \<Rightarrow> py_error + estimate" where
  "calculate_fees history =
     py_bind (py_last (baseFeePerGas history)) (\<lambda>next_block_base_fee.
     py_bind (is_increasing (baseFeePerGas history)) (\<lambda>increasing.
     py_bind (column 1 (reward history)) (\<lambda>recent_priority_fees.
     py_bind (int_median recent_priority_fees) (\<lambda>median_fee.
     py_bind (avg_congestion (gasUsedRatio history)) (\<lambda>avg.
     py_bind (adjust_priority_fee avg median_fee) (\<lambda>suggested_priority_fee.
     py_bind (max_fee_calc next_block_base_fee (base_fee_multiplier increasing avg)
                suggested_priority_fee) (\<lambda>max_fee.
     Inr \<lparr>base_fee_next = next_block_base_fee,
          priority_fee_suggested = suggested_priority_fee,
          max_fee_per_gas = max_fee, congestion = avg\<rparr>)))))))"

section \<open>Example histories\<close>

text \<open>A well-formed history of three blocks, and the same history with one rewards
  tuple of five entries instead of four.\<close>

definition history_ok :: fee_history where
  "history_ok = \<lparr>baseFeePerGas = [100, 150, 180, 200],
     reward = [[1, 2, 3, 4], [1, 2, 3, 4], [1, 2, 3, 4]],
     gasUsedRatio = [1 / 2, 1 / 2, 1 / 2]\<rparr>"

definition history_ragged :: fee_history where
  "history_ragged = \<lparr>baseFeePerGas = [100, 150, 180, 200],
     reward = [[1, 2, 3, 4], [1, 2, 3, 4, 5], [1, 2, 3, 4]],
     gasUsedRatio = [1 / 2, 1 / 2, 1 / 2]\<rparr>"



text \<open>A history of one block whose Standard tip is just above its Saver tip.\<close>

definition history_close :: fee_history where
  "history_close = \<lparr>baseFeePerGas = [100, 200],
     reward = [[100, 101, 200, 300]], gasUsedRatio = [1 / 2]\<rparr>"

section \<open>Rounding to binary64\<close>

lemma py_bind_Inr [simp]: "py_bind (Inr x) f = f x"
  by (simp add: py_bind_def)

lemma py_bind_Inl [simp]: "py_bind (Inl e) f = Inl e"
  by (simp add: py_bind_def)

lemma py_bind_eq_Inr: "py_bind r f = Inr y \<longleftrightarrow> (\<exists>x. r = Inr x \<and> f x = Inr y)"
  by (cases r) simp_all

lemma int_pow_bounds:
  fixes a :: int assumes "0 < a"
  shows "(2::rat) powi (bitlen a - 1) \<le> of_int a" "of_int a < (2::rat) powi (bitlen a)"
proof -
  have "bitlen a \<noteq> 0" using assms by (simp add: bitlen_eq_zero_iff)
  then have b: "1 \<le> bitlen a" using bitlen_nonneg[of a] by linarith
  from bitlen_bounds[OF assms] have 1: "2 ^ nat (bitlen a - 1) \<le> a" and 2: "a < 2 ^ nat (bitlen a)" by auto
  have "(of_int (2 ^ nat (bitlen a - 1)) :: rat) \<le> of_int a" using 1 by (simp only: of_int_le_iff)
  then show "(2::rat) powi (bitlen a - 1) \<le> of_int a" using b by (simp add: power_int_def)
  have "(of_int a :: rat) < of_int (2 ^ nat (bitlen a))" using 2 by (simp only: of_int_less_iff)
  then show "of_int a < (2::rat) powi (bitlen a)" using b by (simp add: power_int_def)
qed

lemma ilog2_bounds:
  assumes "x \<noteq> 0"
  shows "2 powi (ilog2 x) \<le> \<bar>x\<bar>" "\<bar>x\<bar> < 2 powi (ilog2 x + 1)"
proof -
  obtain a b where ab: "quotient_of \<bar>x\<bar> = (a, b)" by (cases "quotient_of \<bar>x\<bar>")
  have bpos: "0 < b" using quotient_of_denom_pos[OF ab] .
  have xeq: "\<bar>x\<bar> = of_int a / of_int b" using quotient_of_div[OF ab] .
  have "0 < \<bar>x\<bar>" using assms by simp
  then have apos: "0 < a" using xeq bpos by (simp add: zero_less_divide_iff)
  define e where "e = bitlen a - bitlen b"
  have il: "ilog2 x = (if 2 powi e \<le> \<bar>x\<bar> then e else e - 1)"
    by (simp add: ilog2_def ab e_def Let_def)
  note A = int_pow_bounds[OF apos] and B = int_pow_bounds[OF bpos]
  have bposr: "(0::rat) < of_int b" using bpos by simp
  have up: "\<bar>x\<bar> < 2 powi (e + 1)"
  proof -
    have "of_int a / of_int b < (2::rat) powi (bitlen a) / of_int b"
      using A(2) bposr by (simp add: divide_strict_right_mono)
    also have "\<dots> \<le> 2 powi (bitlen a) / 2 powi (bitlen b - 1)"
      using B(1) by (intro divide_left_mono) (auto intro!: mult_pos_pos bposr)
    also have "\<dots> = 2 powi (bitlen a - (bitlen b - 1))"
      by (rule power_int_diff[symmetric]) simp
    also have "bitlen a - (bitlen b - 1) = e + 1" by (simp add: e_def)
    finally show ?thesis using xeq by simp
  qed
  have lo: "2 powi (e - 1) \<le> \<bar>x\<bar>"
  proof -
    have "e - 1 = (bitlen a - 1) - bitlen b" by (simp add: e_def)
    then have "(2::rat) powi (e - 1) = 2 powi ((bitlen a - 1) - bitlen b)" by (rule arg_cong)
    also have "\<dots> = 2 powi (bitlen a - 1) / 2 powi (bitlen b)"
      by (rule power_int_diff) simp
    also have "\<dots> \<le> of_int a / 2 powi (bitlen b)"
      using A(1) by (simp add: divide_right_mono)
    also have "\<dots> \<le> of_int a / of_int b"
      using B(2) apos bposr by (intro divide_left_mono) (auto intro!: mult_pos_pos)
    finally show ?thesis using xeq by simp
  qed
  show "2 powi (ilog2 x) \<le> \<bar>x\<bar>" using lo il by auto
  show "\<bar>x\<bar> < 2 powi (ilog2 x + 1)" using up il by (auto simp: not_le)
qed

lemma pow2_less_cancel: "(2::rat) powi a < 2 powi b \<Longrightarrow> a < b"
proof (rule ccontr)
  assume h: "(2::rat) powi a < 2 powi b" and "\<not> a < b"
  then have "b \<le> a" by simp
  then have "(2::rat) powi b \<le> 2 powi a" by (rule power_int_increasing) simp
  with h show False by simp
qed

lemma ilog2_unique:
  assumes "2 powi e \<le> \<bar>x\<bar>" "\<bar>x\<bar> < 2 powi (e + 1)"
  shows "ilog2 x = e"
proof -
  have "0 < \<bar>x\<bar>" using assms(1) zero_less_power_int[of "2::rat" e] by linarith
  then have nz: "x \<noteq> 0" by simp
  note B = ilog2_bounds[OF nz]
  have "(2::rat) powi e < 2 powi (ilog2 x + 1)" using assms(1) B(2) by linarith
  then have 1: "e < ilog2 x + 1" by (rule pow2_less_cancel)
  have "(2::rat) powi (ilog2 x) < 2 powi (e + 1)" using assms(2) B(1) by linarith
  then have 2: "ilog2 x < e + 1" by (rule pow2_less_cancel)
  from 1 2 show ?thesis by simp
qed

lemma rhe_of_int: "round_half_even (of_int n) = n"
  by (simp add: round_half_even_def)

lemma rhe_ge_floor: "\<lfloor>x\<rfloor> \<le> round_half_even x"
  by (simp add: round_half_even_def Let_def)

lemma rhe_le_floor1: "round_half_even x \<le> \<lfloor>x\<rfloor> + 1"
  by (simp add: round_half_even_def Let_def)

lemma rhe_mono:
  assumes "x \<le> y" shows "round_half_even x \<le> round_half_even y"
proof (cases "\<lfloor>x\<rfloor> = \<lfloor>y\<rfloor>")
  case True
  then show ?thesis using assms by (auto simp: round_half_even_def Let_def)
next
  case False
  then have "\<lfloor>x\<rfloor> + 1 \<le> \<lfloor>y\<rfloor>" using floor_mono[OF assms] by linarith
  then show ?thesis using rhe_le_floor1[of x] rhe_ge_floor[of y] by linarith
qed

lemma rhe_lower: "of_int n \<le> x \<Longrightarrow> n \<le> round_half_even x"
  using rhe_mono[of "of_int n" x] by (simp add: rhe_of_int)

lemma rhe_upper: "x \<le> of_int n \<Longrightarrow> round_half_even x \<le> n"
  using rhe_mono[of x "of_int n"] by (simp add: rhe_of_int)

lemma quantum_pos: "0 < quantum x"
  by (simp add: quantum_def)

lemma round_unb_multiple:
  assumes "x = of_int j * quantum x" shows "round_unb x = x"
proof (cases "x = 0")
  case True then show ?thesis by (simp add: round_unb_def)
next
  case False
  have "x / quantum x = of_int j" using assms quantum_pos[of x]
    by (metis less_irrefl nonzero_mult_div_cancel_right)
  then show ?thesis using False assms by (simp add: round_unb_def Let_def rhe_of_int)
qed

lemma round_unb_nonneg: "0 \<le> x \<Longrightarrow> 0 \<le> round_unb x"
proof -
  assume h: "0 \<le> x"
  have "0 \<le> x / quantum x" using h quantum_pos[of x] by simp
  then have "0 \<le> round_half_even (x / quantum x)" using rhe_lower[of 0] by simp
  then show ?thesis using quantum_pos[of x] by (simp add: round_unb_def Let_def)
qed

lemma pow2_int: "0 \<le> k \<Longrightarrow> (2::rat) powi k = of_int (2 ^ nat k)"
  by (simp add: power_int_def)

lemma round_unb_exact:
  assumes x: "x = of_int m * 2 powi k" and m: "\<bar>m\<bar> < 2 ^ 53" and k: "- 1074 \<le> k"
  shows "round_unb x = x"
proof (cases "x = 0")
  case True then show ?thesis by (simp add: round_unb_def)
next
  case False
  define E where "E = max (ilog2 x) (- 1022) - 52"
  have q: "quantum x = 2 powi E" by (simp add: quantum_def E_def)
  have "\<bar>x\<bar> = of_int \<bar>m\<bar> * 2 powi k" by (simp add: x abs_mult)
  also have "\<dots> < of_int (2 ^ 53) * 2 powi k"
    using m by (intro mult_strict_right_mono) (simp_all only: of_int_less_iff zero_less_power_int zero_less_numeral)
  also have "\<dots> = 2 powi 53 * 2 powi k" by simp
  also have "\<dots> = 2 powi (53 + k)" by (rule power_int_add[symmetric]) simp
  finally have "2 powi (ilog2 x) < (2::rat) powi (53 + k)"
    using ilog2_bounds(1)[OF False] by linarith
  then have "ilog2 x < 53 + k" by (rule pow2_less_cancel)
  then have Ek: "E \<le> k" using k by (simp add: E_def)
  have "(2::rat) powi k = 2 powi (k - E) * 2 powi E"
    by (subst power_int_add[symmetric]) simp_all
  also have "(2::rat) powi (k - E) = of_int (2 ^ nat (k - E))" using Ek by (intro pow2_int) simp
  finally have k2: "(2::rat) powi k = of_int (2 ^ nat (k - E)) * 2 powi E" .
  have "of_int m * (2::rat) powi k = of_int (m * 2 ^ nat (k - E)) * 2 powi E"
    unfolding k2 by (simp only: of_int_mult mult.assoc)
  then have "x = of_int (m * 2 ^ nat (k - E)) * quantum x"
    unfolding q x[symmetric] .
  then show ?thesis by (rule round_unb_multiple)
qed

lemma rhe_near:
  assumes "\<bar>x - of_int n\<bar> < 1 / 2 \<or> (\<bar>x - of_int n\<bar> = 1 / 2 \<and> even n)"
  shows "round_half_even x = n"
proof (cases "of_int n \<le> x")
  case True
  then have "\<lfloor>x\<rfloor> = n" using assms by (intro floor_unique) auto
  then show ?thesis using assms True by (auto simp: round_half_even_def Let_def)
next
  case False
  then have f: "\<lfloor>x\<rfloor> = n - 1" using assms by (intro floor_unique) auto
  have "odd (n - 1) \<or> \<bar>x - of_int n\<bar> < 1 / 2" using assms by auto
  then show ?thesis using assms False f by (auto simp: round_half_even_def Let_def)
qed

lemma round_unb_near:
  assumes e: "2 powi e \<le> \<bar>x\<bar>" "\<bar>x\<bar> < 2 powi (e + 1)"
    and q: "q = 2 powi (max e (- 1022) - 52)"
    and n: "\<bar>x - of_int n * q\<bar> < q / 2 \<or> (\<bar>x - of_int n * q\<bar> = q / 2 \<and> even n)"
  shows "round_unb x = of_int n * q"
proof -
  have "0 < \<bar>x\<bar>" using e(1) zero_less_power_int[of "2::rat" e] by linarith
  then have nz: "x \<noteq> 0" by simp
  have qx: "quantum x = q" by (simp add: quantum_def ilog2_unique[OF e] q)
  have qpos: "0 < q" by (simp add: q)
  have "x / q - of_int n = (x - of_int n * q) / q"
    using qpos by (simp add: field_simps)
  then have "\<bar>x / q - of_int n\<bar> = \<bar>x - of_int n * q\<bar> / q"
    using qpos by (simp only: abs_divide abs_of_pos)
  then have "\<bar>x / q - of_int n\<bar> < 1 / 2 \<or> (\<bar>x / q - of_int n\<bar> = 1 / 2 \<and> even n)"
    using n qpos by (auto simp: field_simps)
  then have "round_half_even (x / q) = n" by (rule rhe_near)
  then show ?thesis using nz qx by (simp add: round_unb_def Let_def)
qed

lemma round_double_fin:
  "round_unb x = y \<Longrightarrow> \<bar>y\<bar> < 2 powi 1024 \<Longrightarrow> round_double x = Fin y"
  by (auto simp: round_double_def Let_def)

lemma round_double_exact:
  assumes "x = of_int m * 2 powi k" "\<bar>m\<bar> < 2 ^ 53" "- 1074 \<le> k" "\<bar>x\<bar> < 2 powi 1024"
  shows "round_double x = Fin x"
  using round_unb_exact[OF assms(1-3)] assms(4) by (rule round_double_fin)

lemma round_double_int:
  assumes "\<bar>n\<bar> \<le> 2 ^ 53" shows "round_double (of_int n) = Fin (of_int n)"
proof (cases "\<bar>n\<bar> = 2 ^ 53")
  case True
  then have "n = 2 ^ 53 \<or> n = - (2 ^ 53)" by linarith
  then have "(of_int n :: rat) = of_int (n div 2) * 2 powi 1" by auto
  moreover have "\<bar>n div 2\<bar> < 2 ^ 53" using \<open>n = 2 ^ 53 \<or> n = - (2 ^ 53)\<close> by auto
  moreover have "\<bar>of_int n :: rat\<bar> < 2 powi 1024" using \<open>n = 2 ^ 53 \<or> n = - (2 ^ 53)\<close> by auto
  ultimately show ?thesis by (intro round_double_exact[where k = 1]) simp_all
next
  case False
  then have lt: "\<bar>n\<bar> < 2 ^ 53" using assms by simp
  have "\<bar>of_int n :: rat\<bar> = of_int \<bar>n\<bar>" by simp
  also have "\<dots> < of_int (2 ^ 53)" using lt by (simp only: of_int_less_iff)
  also have "\<dots> < 2 powi 1024" by simp
  finally have "\<bar>of_int n :: rat\<bar> < 2 powi 1024" .
  then show ?thesis using lt by (intro round_double_exact[where m = n and k = 0]) simp_all
qed

lemma float_of_int_exact: "\<bar>n\<bar> \<le> 2 ^ 53 \<Longrightarrow> float_of_int n = Inr (of_int n)"
  by (simp add: float_of_int_def round_double_int)

lemma float_lit_1125: "float_lit (1125 / 1000) = 9 / 8"
proof -
  have "round_unb (9 / 8) = 9 / 8"
    by (rule round_unb_exact[where m = 9 and k = "- 3"]) simp_all
  then show ?thesis by (simp add: float_lit_def)
qed

lemma float_lit_1: "float_lit 1 = 1"
  using round_unb_exact[where m = 1 and k = 0 and x = 1] by (simp add: float_lit_def)

lemma float_lit_12: "float_lit (12 / 10) = 5404319552844595 / 4503599627370496"
proof -
  have "round_unb (6 / 5) = of_int 5404319552844595 * 2 powi (- 52)"
    by (rule round_unb_near[where e = 0]) simp_all
  then show ?thesis by (simp add: float_lit_def)
qed

lemma round_unb_unfold: "x \<noteq> 0 \<Longrightarrow>
  round_unb x = of_int (round_half_even (x / quantum x)) * quantum x"
  by (simp add: round_unb_def Let_def)

lemma round_unb_same_quantum:
  assumes "0 < x" "x \<le> y" "quantum x = quantum y"
  shows "round_unb x \<le> round_unb y"
proof -
  have "x / quantum y \<le> y / quantum y"
    using assms(2) quantum_pos[of y] by (simp add: divide_right_mono)
  then have "round_half_even (x / quantum y) \<le> round_half_even (y / quantum y)"
    by (rule rhe_mono)
  then have "(of_int (round_half_even (x / quantum y)) :: rat) * quantum y
      \<le> of_int (round_half_even (y / quantum y)) * quantum y"
    using quantum_pos[of y] by (intro mult_right_mono) simp_all
  then show ?thesis using assms by (simp add: round_unb_unfold)
qed

lemma round_unb_below_pow2:
  assumes "0 < x" "x \<le> 2 powi p" "max (ilog2 x) (- 1022) \<le> p"
  shows "round_unb x \<le> 2 powi p"
proof -
  define E where "E = max (ilog2 x) (- 1022) - 52"
  have q: "quantum x = 2 powi E" by (simp add: quantum_def E_def)
  have "0 \<le> p - E" using assms(3) unfolding E_def by linarith
  then have "(2::rat) powi (p - E) = of_int (2 ^ nat (p - E))" by (rule pow2_int)
  moreover have "(2::rat) powi p / 2 powi E = 2 powi (p - E)"
    by (rule power_int_diff[symmetric]) simp
  ultimately have P: "(2::rat) powi p / 2 powi E = of_int (2 ^ nat (p - E))" by simp
  have "x / 2 powi E \<le> (2::rat) powi p / 2 powi E"
    using assms(2) by (simp add: divide_right_mono)
  then have "round_half_even (x / 2 powi E) \<le> 2 ^ nat (p - E)"
    unfolding P by (rule rhe_upper)
  then have "(of_int (round_half_even (x / 2 powi E)) :: rat) \<le> of_int (2 ^ nat (p - E))"
    by (simp only: of_int_le_iff)
  then have "(of_int (round_half_even (x / 2 powi E)) :: rat) * 2 powi E
      \<le> of_int (2 ^ nat (p - E)) * 2 powi E"
    by (intro mult_right_mono) simp_all
  also have "\<dots> = 2 powi p" unfolding P[symmetric] by simp
  finally show ?thesis using assms(1) q by (simp add: round_unb_unfold)
qed

lemma round_unb_above_pow2:
  assumes "0 < y" "- 1022 \<le> ilog2 y"
  shows "2 powi (ilog2 y) \<le> round_unb y"
proof -
  define E where "E = ilog2 y - 52"
  have q: "quantum y = 2 powi E" using assms(2) by (simp add: quantum_def E_def max_def)
  have nz: "y \<noteq> 0" using assms(1) by simp
  have "(2::rat) powi (ilog2 y) / 2 powi E = 2 powi (ilog2 y - E)"
    by (rule power_int_diff[symmetric]) simp
  also have "\<dots> = of_int (2 ^ 52)" by (simp add: E_def)
  finally have P: "(2::rat) powi (ilog2 y) / 2 powi E = of_int (2 ^ 52)" .
  have "(2::rat) powi (ilog2 y) \<le> y" using ilog2_bounds(1)[OF nz] assms(1) by simp
  then have "(2::rat) powi (ilog2 y) / 2 powi E \<le> y / 2 powi E"
    by (simp add: divide_right_mono)
  then have "2 ^ 52 \<le> round_half_even (y / 2 powi E)"
    unfolding P by (rule rhe_lower)
  then have "(of_int (2 ^ 52) :: rat) \<le> of_int (round_half_even (y / 2 powi E))"
    by (simp only: of_int_le_iff)
  then have "(of_int (2 ^ 52) :: rat) * 2 powi E \<le> of_int (round_half_even (y / 2 powi E)) * 2 powi E"
    by (intro mult_right_mono) simp_all
  moreover have "(of_int (2 ^ 52) :: rat) * 2 powi E = 2 powi (ilog2 y)"
    unfolding P[symmetric] by simp
  ultimately have "2 powi (ilog2 y) \<le> of_int (round_half_even (y / 2 powi E)) * (2::rat) powi E"
    by (simp only:)
  then show ?thesis unfolding round_unb_unfold[OF nz] q .
qed

lemma ilog2_mono:
  assumes "0 < x" "x \<le> y" shows "ilog2 x \<le> ilog2 y"
proof -
  have nz: "x \<noteq> 0" "y \<noteq> 0" using assms by simp_all
  have "(2::rat) powi (ilog2 x) \<le> x" using ilog2_bounds(1)[OF nz(1)] assms(1) by simp
  moreover have "y < 2 powi (ilog2 y + 1)" using ilog2_bounds(2)[OF nz(2)] assms by simp
  ultimately have "(2::rat) powi (ilog2 x) < 2 powi (ilog2 y + 1)" using assms(2) by linarith
  then have "ilog2 x < ilog2 y + 1" by (rule pow2_less_cancel)
  then show ?thesis by simp
qed

lemma round_unb_mono:
  assumes "0 \<le> x" "x \<le> y"
  shows "round_unb x \<le> round_unb y"
proof (cases "x = 0")
  case True
  then show ?thesis using round_unb_nonneg[of y] assms by (simp add: round_unb_def)
next
  case False
  then have xpos: "0 < x" using assms(1) by simp
  then have ypos: "0 < y" using assms(2) by simp
  note le = ilog2_mono[OF xpos assms(2)]
  show ?thesis
  proof (cases "max (ilog2 x) (- 1022) = max (ilog2 y) (- 1022)")
    case True
    then have "quantum x = quantum y" by (simp add: quantum_def)
    then show ?thesis using xpos assms(2) by (intro round_unb_same_quantum)
  next
    case False
    then have lt: "ilog2 x < ilog2 y" and ey: "- 1022 < ilog2 y" using le by (auto simp: max_def split: if_splits)
    have "x < 2 powi (ilog2 x + 1)" using ilog2_bounds(2)[of x] xpos by simp
    also have "(2::rat) powi (ilog2 x + 1) \<le> 2 powi (ilog2 y)"
      using lt by (intro power_int_increasing) simp_all
    finally have "x \<le> 2 powi (ilog2 y)" by simp
    then have "round_unb x \<le> 2 powi (ilog2 y)"
      using xpos lt ey by (intro round_unb_below_pow2) simp_all
    also have "\<dots> \<le> round_unb y" using ypos ey by (intro round_unb_above_pow2) simp_all
    finally show ?thesis .
  qed
qed

lemma round_double_mono:
  assumes "0 \<le> x" "x \<le> y" "round_double y = Fin b"
  shows "\<exists>a. round_double x = Fin a \<and> 0 \<le> a \<and> a \<le> b"
proof -
  have b: "round_unb y = b" "b < 2 powi 1024"
    using assms(3) by (auto simp: round_double_def Let_def split: if_splits)
  have "round_unb x \<le> b" using round_unb_mono[OF assms(1,2)] b by simp
  moreover have "0 \<le> round_unb x" using assms(1) by (rule round_unb_nonneg)
  moreover have "- (2 powi 1024) < (0::rat)" by simp
  ultimately show ?thesis using b(2) by (auto simp: round_double_def Let_def)
qed

lemma round_double_lower:
  assumes "0 \<le> x" "x \<le> y" "round_double x = Fin x" "round_double y = Fin b"
  shows "x \<le> b"
  using round_double_mono[OF assms(1,2,4)] assms(3) by auto

lemma round_double_upper:
  assumes "0 \<le> x" "x \<le> y" "round_double y = Fin y"
  shows "\<exists>a. round_double x = Fin a \<and> 0 \<le> a \<and> a \<le> y"
  using assms by (rule round_double_mono)

section \<open>Arithmetic of the scripts\<close>

lemma trunc_of_int [simp]: "trunc (of_int n) = n"
  by (simp add: trunc_def)

lemma trunc_numeral [simp]: "trunc (numeral n) = numeral n"
  using trunc_of_int[of "numeral n"] by simp

lemma math_pow_0: "math_pow x 0 = Inr 1"
proof -
  have "round_double 1 = Fin 1" using round_double_int[of 1] by simp
  moreover have "float_of_int 0 = Inr 0" using float_of_int_exact[of 0] by simp
  ultimately show ?thesis by (simp add: math_pow_def)
qed

text \<open>For an exponent that the float conversion keeps exact.\<close>

lemma math_pow_small:
  "\<bar>k\<bar> \<le> 2 ^ 53 \<Longrightarrow> math_pow x k =
     (case round_double (x powi k) of Fin p \<Rightarrow> Inr p | _ \<Rightarrow> Inl OverflowError)"
  by (simp add: math_pow_def float_of_int_exact)

lemma int_mul_float_1: "\<bar>n\<bar> \<le> 2 ^ 53 \<Longrightarrow> int_mul_float n 1 = Inr n"
  by (simp add: int_mul_float_def float_of_int_exact fmul_def round_double_int)

lemma trunc_nonneg: "0 \<le> y \<Longrightarrow> trunc y = \<lfloor>y\<rfloor>"
  by (simp add: trunc_def)

lemma pow_1125: "0 \<le> k \<Longrightarrow> (9 / 8 :: rat) powi k = of_int (9 ^ nat k) * 2 powi (- 3 * k)"
proof -
  assume k: "0 \<le> k"
  have "(9 / 8 :: rat) powi k = (9 / 8) ^ nat k" using k by (simp add: power_int_def)
  also have "\<dots> = 9 ^ nat k / (2 ^ 3) ^ nat k" by (simp add: power_divide)
  also have "((2::rat) ^ 3) ^ nat k = 2 ^ (3 * nat k)" by (simp only: power_mult)
  also have "(2::rat) ^ (3 * nat k) = 2 powi (3 * k)" using k by (simp add: power_int_def nat_mult_distrib)
  also have "9 ^ nat k / (2::rat) powi (3 * k) = 9 ^ nat k * 2 powi (- (3 * k))"
    by (simp add: power_int_minus field_simps)
  finally show ?thesis by simp
qed

lemma nine_pow_le: "k \<le> 16 \<Longrightarrow> (9::int) ^ nat k < 2 ^ 53"
proof -
  assume "k \<le> 16"
  then have "nat k \<le> 16" by simp
  then have "(9::int) ^ nat k \<le> 9 ^ 16" by (intro power_increasing) simp_all
  also have "\<dots> < 2 ^ 53" by simp
  finally show ?thesis .
qed

lemma scaled_exact:
  assumes m: "0 \<le> m" "m < 2 ^ 53" and k: "0 \<le> k" "k \<le> 16"
  shows "round_double (of_int m * 2 powi (- 3 * k)) = Fin (of_int m * 2 powi (- 3 * k))"
proof (rule round_double_exact[where m = m and k = "- 3 * k"])
  show "\<bar>m\<bar> < 2 ^ 53" using m by simp
  show "- 1074 \<le> - 3 * k" using k by simp
  have "(2::rat) powi (- 3 * k) \<le> 2 powi 0" using k by (intro power_int_increasing) simp_all
  then have "of_int m * (2::rat) powi (- 3 * k) \<le> of_int m * 1"
    using m by (intro mult_left_mono) simp_all
  also have "(of_int m :: rat) * 1 < of_int (2 ^ 53)" using m by (simp only: mult_1_right of_int_less_iff)
  also have "(of_int (2 ^ 53) :: rat) < 2 powi 1024" by simp
  finally have "of_int m * (2::rat) powi (- 3 * k) < 2 powi 1024" .
  moreover have "0 \<le> of_int m * (2::rat) powi (- 3 * k)" using m by simp
  ultimately show "\<bar>of_int m * (2::rat) powi (- 3 * k)\<bar> < 2 powi 1024" by simp
qed simp

lemma math_pow_1125_exact:
  assumes "0 \<le> k" "k \<le> 16"
  shows "math_pow (9 / 8) k = Inr ((9 / 8) powi k)"
proof -
  have "\<bar>k\<bar> \<le> 2 ^ 53" using assms by simp
  then show ?thesis
    using scaled_exact[of "9 ^ nat k" k] nine_pow_le[of k] assms
    by (simp add: math_pow_small pow_1125)
qed

lemma floor_rat_numeral [simp]:
  "\<lfloor>numeral a / numeral b :: rat\<rfloor> = numeral a div numeral b"
  using floor_divide_of_int_eq[of "numeral a" "numeral b", where ?'a = rat] by simp

lemma float_lit_9_8: "float_lit (9 / 8) = 9 / 8"
  using float_lit_1125 by simp

lemma round_double_pow2:
  assumes "- 1074 \<le> n" "n < 1024" shows "round_double (2 powi n) = Fin (2 powi n)"
proof (rule round_double_exact[where m = 1 and k = n])
  have "(2::rat) powi n < 2 powi 1024" using assms(2) by (intro power_int_strict_increasing) simp_all
  then show "\<bar>(2::rat) powi n\<bar> < 2 powi 1024" by simp
qed (use assms in simp_all)

lemma trunc_bounds: "0 \<le> y \<Longrightarrow> y \<le> of_int n \<Longrightarrow> 0 \<le> trunc y \<and> trunc y \<le> n"
  by (simp add: trunc_def floor_le_iff)

lemma float_lit_eq: "round_double x = Fin x \<Longrightarrow> float_lit x = x"
  by (auto simp: float_lit_def round_double_def Let_def split: if_splits)

text \<open>\<open>int(n * c)\<close> for \<open>0 \<le> n \<le> 2^53\<close> and a float \<open>0 \<le> c \<le> 1\<close> lies between 0 and \<open>n\<close>.\<close>

lemma int_mul_float_shrink:
  assumes n: "0 \<le> n" "n \<le> 2 ^ 53" and c: "0 \<le> c" "c \<le> 1"
  shows "\<exists>v. int_mul_float n c = Inr v \<and> 0 \<le> v \<and> v \<le> n"
proof -
  have f: "float_of_int n = Inr (of_int n)" using n by (intro float_of_int_exact) simp
  have r: "round_double (of_int n) = Fin (of_int n)" using n by (intro round_double_int) simp
  have "of_int n * c \<le> of_int n * 1" using n c by (intro mult_left_mono) simp_all
  then have "of_int n * c \<le> of_int n" by simp
  moreover have "0 \<le> of_int n * c" using n c by simp
  ultimately obtain a where a: "round_double (of_int n * c) = Fin a" "0 \<le> a" "a \<le> of_int n"
    using round_double_upper[OF _ _ r] by blast
  show ?thesis using a trunc_bounds[of a n] by (simp add: int_mul_float_def f fmul_def)
qed

lemma math_pow_negative:
  assumes "k < 0" "- (2 ^ 53) \<le> k"
  shows "\<exists>a. math_pow (9 / 8) k = Inr a \<and> 0 \<le> a \<and> a \<le> 1"
proof -
  have s: "\<bar>k\<bar> \<le> 2 ^ 53" using assms by simp
  have "(9 / 8 :: rat) powi k \<le> (9 / 8) powi 0" using assms by (intro power_int_increasing) simp_all
  then have le: "(9 / 8 :: rat) powi k \<le> 1" by simp
  have nn: "0 \<le> (9 / 8 :: rat) powi k" by simp
  have "round_double 1 = Fin 1" using round_double_int[of 1] by simp
  from round_double_upper[OF nn le this] show ?thesis by (auto simp: math_pow_small[OF s])
qed

lemma math_pow_bounded:
  assumes "0 \<le> k" "k \<le> 970"
  shows "\<exists>a. math_pow (9 / 8) k = Inr a \<and> 0 \<le> a \<and> a \<le> 2 powi k"
proof -
  have "(9 / 8 :: rat) ^ nat k \<le> 2 ^ nat k" by (intro power_mono) simp_all
  then have le: "(9 / 8 :: rat) powi k \<le> 2 powi k" using assms by (simp add: power_int_def)
  have nn: "0 \<le> (9 / 8 :: rat) powi k" by simp
  have "round_double (2 powi k) = Fin (2 powi k)" using assms by (intro round_double_pow2) simp_all
  moreover have "\<bar>k\<bar> \<le> 2 ^ 53" using assms by simp
  ultimately show ?thesis using round_double_upper[OF nn le] by (auto simp: math_pow_small)
qed

lemma int_mul_float_no_overflow:
  assumes n: "0 \<le> n" "n \<le> 2 ^ 53" and c: "0 \<le> c" "c \<le> 2 powi k" and k: "0 \<le> k" "k \<le> 970"
  shows "\<exists>v. int_mul_float n c = Inr v \<and> 0 \<le> v"
proof -
  have f: "float_of_int n = Inr (of_int n)" using n by (intro float_of_int_exact) simp
  have "(of_int n :: rat) \<le> of_int (2 ^ 53)" using n by (simp only: of_int_le_iff)
  then have "(of_int n :: rat) \<le> 2 powi 53" by simp
  then have "of_int n * c \<le> 2 powi 53 * 2 powi k" using n c by (intro mult_mono) simp_all
  also have "(2::rat) powi 53 * 2 powi k = 2 powi (53 + k)" by (rule power_int_add[symmetric]) simp
  finally have le: "of_int n * c \<le> 2 powi (53 + k)" .
  have nn: "0 \<le> of_int n * c" using n c by simp
  have "round_double (2 powi (53 + k)) = Fin (2 powi (53 + k))"
    using k by (intro round_double_pow2) simp_all
  from round_double_upper[OF nn le this] obtain a
    where "round_double (of_int n * c) = Fin a" "0 \<le> a" by blast
  then show ?thesis by (simp add: int_mul_float_def f fmul_def trunc_def)
qed

lemma half_exact:
  assumes "0 \<le> m" "m < 2 ^ 53"
  shows "round_double (of_int m / 2) = Fin (of_int m / 2)"
proof (rule round_double_exact[where m = m and k = "- 1"])
  have "(of_int m :: rat) < of_int (2 ^ 53)" using assms by (simp only: of_int_less_iff)
  then have "(of_int m :: rat) / 2 < 2 powi 1024" by simp
  then show "\<bar>of_int m / 2 :: rat\<bar> < 2 powi 1024" using assms by simp
qed (use assms in simp_all)

lemma int_truediv_2:
  assumes "0 \<le> m" "m < 2 ^ 53"
  shows "int_truediv m 2 = Inr (of_int m / 2)"
  using half_exact[OF assms] by (simp add: int_truediv_def)

lemma project_exact:
  assumes "0 \<le> base" "0 \<le> k" "k \<le> 16" "base * 9 ^ nat k < 2 ^ 53"
  shows "calculate_max_base_fee base k = Inr \<lfloor>of_int base * (9 / 8 :: rat) powi k\<rfloor>"
proof -
  have "base * 1 \<le> base * 9 ^ nat k" using assms(1) by (intro mult_left_mono) simp_all
  then have b: "\<bar>base\<bar> \<le> 2 ^ 53" using assms by simp
  have x: "of_int base * (9 / 8 :: rat) powi k = of_int (base * 9 ^ nat k) * 2 powi (- 3 * k)"
    using assms(2) by (simp add: pow_1125)
  have "round_double (of_int (base * 9 ^ nat k) * 2 powi (- 3 * k))
        = Fin (of_int (base * 9 ^ nat k) * 2 powi (- 3 * k))"
    using assms by (intro scaled_exact) simp_all
  then have f: "fmul (of_int base) ((9 / 8) powi k) = Fin (of_int base * (9 / 8) powi k)"
    unfolding fmul_def x .
  have nn: "0 \<le> of_int base * (9 / 8 :: rat) powi k" using assms(1) by simp
  show ?thesis
    using assms(2,3)
    by (simp add: calculate_max_base_fee_def float_lit_9_8 math_pow_1125_exact
        int_mul_float_def float_of_int_exact[OF b] f trunc_nonneg[OF nn])
qed

lemma float_lit_2: "float_lit 2 = 2"
  using round_unb_exact[where m = 1 and k = 1 and x = 2] by (simp add: float_lit_def)

lemma float_lit_half: "float_lit (1 / 2) = 1 / 2"
  using round_unb_exact[where m = 1 and k = "- 1" and x = "1 / 2"] by (simp add: float_lit_def)

lemma float_lit_3_2: "float_lit (3 / 2) = 3 / 2"
  using round_unb_exact[where m = 3 and k = "- 1" and x = "3 / 2"] by (simp add: float_lit_def)

lemma float_lit_5_4: "float_lit (5 / 4) = 5 / 4"
  using round_unb_exact[where m = 5 and k = "- 2" and x = "5 / 4"] by (simp add: float_lit_def)

lemma float_lit_6_5: "float_lit (6 / 5) = 5404319552844595 / 4503599627370496"
  using float_lit_12 by simp

lemma float_lit_23_20: "float_lit (23 / 20) = 2589569785738035 / 2251799813685248"
proof -
  have "round_unb (23 / 20) = of_int 5179139571476070 * 2 powi (- 52)"
    by (rule round_unb_near[where e = 0]) simp_all
  then show ?thesis by (simp add: float_lit_def)
qed

lemma float_lit_19_20: "float_lit (19 / 20) = 4278419646001971 / 4503599627370496"
proof -
  have "round_unb (19 / 20) = of_int 8556839292003942 * 2 powi (- 53)"
    by (rule round_unb_near[where e = "- 1"]) simp_all
  then show ?thesis by (simp add: float_lit_def)
qed

lemma float_lit_9_20: "float_lit (9 / 20) = 8106479329266893 / 18014398509481984"
proof -
  have "round_unb (9 / 20) = of_int 8106479329266893 * 2 powi (- 54)"
    by (rule round_unb_near[where e = "- 2"]) simp_all
  then show ?thesis by (simp add: float_lit_def)
qed

lemma float_lit_4_5: "float_lit (4 / 5) = 3602879701896397 / 4503599627370496"
proof -
  have "round_unb (4 / 5) = of_int 7205759403792794 * 2 powi (- 53)"
    by (rule round_unb_near[where e = "- 1"]) simp_all
  then show ?thesis by (simp add: float_lit_def)
qed

lemma float_lit_9_10: "float_lit (9 / 10) = 8106479329266893 / 9007199254740992"
proof -
  have "round_unb (9 / 10) = of_int 8106479329266893 * 2 powi (- 53)"
    by (rule round_unb_near[where e = "- 1"]) simp_all
  then show ?thesis by (simp add: float_lit_def)
qed

lemma float_lit_3_10: "float_lit (3 / 10) = 5404319552844595 / 18014398509481984"
proof -
  have "round_unb (3 / 10) = of_int 5404319552844595 * 2 powi (- 54)"
    by (rule round_unb_near[where e = "- 2"]) simp_all
  then show ?thesis by (simp add: float_lit_def)
qed

lemmas float_lits = float_lit_1 float_lit_2 float_lit_half float_lit_3_2 float_lit_5_4
  float_lit_6_5 float_lit_23_20 float_lit_19_20 float_lit_9_20 float_lit_4_5 float_lit_9_10
  float_lit_3_10 float_lit_9_8

text \<open>The mean of three utilisation ratios of one half.\<close>

lemma avg_congestion_halves: "avg_congestion [1 / 2, 1 / 2, 1 / 2] = Inr (Fin (1 / 2))"
proof -
  have 1: "round_double (1 / 2) = Fin (1 / 2)"
    by (rule round_double_exact[where m = 1 and k = "- 1"]) simp_all
  have 2: "round_double 1 = Fin 1" using round_double_int[of 1] by simp
  have 3: "round_double (3 / 2) = Fin (3 / 2)"
    by (rule round_double_exact[where m = 3 and k = "- 1"]) simp_all
  have s: "py_sum [1 / 2, 1 / 2, 1 / 2] = Fin (3 / 2)" by (simp add: py_sum_def 1 2 3)
  have n: "float_of_int 3 = Inr 3" using float_of_int_exact[of 3] by simp
  show ?thesis by (simp add: avg_congestion_def s n 1)
qed

lemma congestion_multiplier_half: "congestion_multiplier (Fin (1 / 2)) = 1"
  by (simp add: congestion_multiplier_def float_lits)

lemma int_median_odd3: "int_median [a, a, a] = Inr a"
  by (simp add: int_median_def median_def)

lemma project_200:
  "calculate_max_base_fee 200 2 = Inr 253" "calculate_max_base_fee 200 4 = Inr 320"
  "calculate_max_base_fee 200 6 = Inr 405" "calculate_max_base_fee 200 10 = Inr 649"
  using project_exact[of 200 2] project_exact[of 200 4] project_exact[of 200 6]
    project_exact[of 200 10] by (simp_all add: power_divide)

text \<open>The prints raise exactly when one of their int-to-float conversions does.\<close>

lemma float_of_int_cases: "float_of_int n = Inl OverflowError \<or> (\<exists>f. float_of_int n = Inr f)"
  by (simp add: float_of_int_def split: pyfloat.splits)

lemma bind_gwei: "py_bind (gwei n) (\<lambda>shown. r) = py_bind (float_of_int n) (\<lambda>w. r)"
  by (cases "float_of_int n") (simp_all add: gwei_def)

lemma bind_calculate_cost_usd:
  "py_bind (calculate_cost_usd n) (\<lambda>shown. r) = py_bind (float_of_int (n * 21000)) (\<lambda>c. r)"
proof -
  have "float_of_int 2500 = Inr 2500" using float_of_int_exact[of 2500] by simp
  then show ?thesis by (cases "float_of_int (n * 21000)") (simp_all add: calculate_cost_usd_def)
qed

lemma print_row_small:
  assumes "0 \<le> mf" "mf \<le> 1000" "0 \<le> tip" "tip \<le> 1000"
  shows "print_row mf tip = Inr ()"
proof -
  have "\<bar>mf\<bar> \<le> 2 ^ 53" "\<bar>tip\<bar> \<le> 2 ^ 53" "\<bar>mf * 21000\<bar> \<le> 2 ^ 53" using assms by simp_all
  then show ?thesis
    by (simp add: print_row_def fmt_gwei_def bind_gwei bind_calculate_cost_usd float_of_int_exact)
qed

lemma float_of_int_200: "float_of_int 200 = Inr 200"
  using float_of_int_exact[of 200] by simp

lemma predict_fees_ok:
  "predict_fees history_ok = Inr \<lparr>median_tip_30 = 1, median_tip_60 = 2, median_tip_75 = 3,
     median_tip_90 = 4, max_fee_saver = 254, max_fee_std = 322, max_fee_rec = 408,
     max_fee_urgent = 653\<rparr>"
proof -
  have s: "smoothed_tips history_ok = Inr (1, 2, 3, 4)"
    by (simp add: smoothed_tips_def history_ok_def int_median_odd3 enforce_minimum_def)
  have m: "\<And>n. \<bar>n\<bar> \<le> 4 \<Longrightarrow> int_mul_float n 1 = Inr n"
    by (rule int_mul_float_1) simp
  have a: "adjusted_tips history_ok = Inr (1, 2, 3, 4)"
    unfolding adjusted_tips_def s
    by (simp add: history_ok_def avg_congestion_halves congestion_multiplier_half
        apply_congestion_def m)
  show ?thesis
    unfolding predict_fees_def a
    by (simp add: history_ok_def py_last_def project_200 bind_gwei float_of_int_200)
qed

lemma predict_fees_ragged:
  "predict_fees history_ragged = Inr \<lparr>median_tip_30 = 1, median_tip_60 = 2, median_tip_75 = 3,
     median_tip_90 = 4, max_fee_saver = 254, max_fee_std = 322, max_fee_rec = 408,
     max_fee_urgent = 653\<rparr>"
proof -
  have s: "smoothed_tips history_ragged = Inr (1, 2, 3, 4)"
    by (simp add: smoothed_tips_def history_ragged_def int_median_odd3 enforce_minimum_def)
  have m: "\<And>n. \<bar>n\<bar> \<le> 4 \<Longrightarrow> int_mul_float n 1 = Inr n"
    by (rule int_mul_float_1) simp
  have a: "adjusted_tips history_ragged = Inr (1, 2, 3, 4)"
    unfolding adjusted_tips_def s
    by (simp add: history_ragged_def avg_congestion_halves congestion_multiplier_half
        apply_congestion_def m)
  show ?thesis
    unfolding predict_fees_def a
    by (simp add: history_ragged_def py_last_def project_200 bind_gwei float_of_int_200)
qed

lemma column_error: "column i rs = Inl e \<Longrightarrow> e = IndexError"
proof (induction rs)
  case Nil
  then show ?case by simp
next
  case (Cons r rs)
  then show ?case by (cases "column i rs") (auto split: if_splits)
qed

lemma column_short: "\<exists>r\<in>set rs. length r \<le> i \<Longrightarrow> column i rs = Inl IndexError"
proof (induction rs)
  case Nil
  then show ?case by simp
next
  case (Cons r rs)
  show ?case
  proof (cases "column i rs")
    case (Inl e)
    then show ?thesis using column_error[OF Inl] by simp
  next
    case (Inr c)
    then have "\<not> (\<exists>r\<in>set rs. length r \<le> i)" using Cons.IH by auto
    then have "length r \<le> i" using Cons.prems by auto
    then show ?thesis by simp
  qed
qed

lemma bind_column_error:
  assumes "\<And>c. f c = Inl IndexError"
  shows "py_bind (column i rs) f = Inl IndexError"
proof (cases "column i rs")
  case (Inl e)
  then show ?thesis using column_error[OF Inl] by simp
next
  case (Inr c)
  then show ?thesis using assms by simp
qed

lemma smoothed_tips_short:
  assumes "\<exists>r\<in>set (reward d). length r < 4"
  shows "smoothed_tips d = Inl IndexError"
proof -
  obtain r where r: "r \<in> set (reward d)" "length r < 4" using assms by blast
  then have "length r \<le> 3" by simp
  with r(1) have "\<exists>r\<in>set (reward d). length r \<le> 3" by blast
  then have 3: "column 3 (reward d) = Inl IndexError" by (rule column_short)
  show ?thesis unfolding smoothed_tips_def
    by (rule bind_column_error, rule bind_column_error, rule bind_column_error) (simp add: 3)
qed

lemma is_increasing_error: "is_increasing bf = Inl e \<Longrightarrow> e = IndexError"
  by (auto simp: is_increasing_def py_last_def py_first_def py_bind_def
      split: if_splits list.splits sum.splits)



lemma max_fee_calc_2:
  assumes "0 \<le> n" "0 \<le> p" "2 * n + p < 2 ^ 52"
  shows "int_mul_float n 2 = Inr (2 * n)" "max_fee_calc n 2 p = Inr (2 * n + p)"
proof -
  have fn: "float_of_int n = Inr (of_int n)" using assms by (intro float_of_int_exact) simp
  have fp: "float_of_int p = Inr (of_int p)" using assms by (intro float_of_int_exact) simp
  have "round_double (of_int (2 * n)) = Fin (of_int (2 * n))"
    using assms by (intro round_double_int) simp
  then have m: "fmul (of_int n) 2 = Fin (of_int (2 * n))" by (simp add: fmul_def mult.commute)
  have "round_double (of_int (2 * n + p)) = Fin (of_int (2 * n + p))"
    using assms by (intro round_double_int) simp
  then have a: "round_double (of_int (2 * n) + of_int p) = Fin (of_int (2 * n + p))"
    by (simp only: of_int_add)
  show "int_mul_float n 2 = Inr (2 * n)"
    by (simp add: int_mul_float_def fn m del: of_int_mult of_int_add)
  show "max_fee_calc n 2 p = Inr (2 * n + p)"
    by (simp add: max_fee_calc_def fn fp m a del: of_int_mult of_int_add)
qed



lemma round_double_FinD: "round_double x = Fin y \<Longrightarrow> y = round_unb x"
  by (auto simp: round_double_def Let_def split: if_splits)

lemma float_of_int_InrD: "float_of_int n = Inr f \<Longrightarrow> f = round_unb (of_int n)"
  by (auto simp: float_of_int_def dest: round_double_FinD split: pyfloat.splits)

lemma trunc_mono: "0 \<le> x \<Longrightarrow> x \<le> y \<Longrightarrow> trunc x \<le> trunc y"
  by (simp add: trunc_def floor_mono)

lemma trunc_nonneg_le: "0 \<le> x \<Longrightarrow> 0 \<le> trunc x"
  by (simp add: trunc_def)

lemma int_mul_float_InrD:
  assumes "int_mul_float n c = Inr v"
  shows "v = trunc (round_unb (round_unb (of_int n) * c))"
proof -
  from assms obtain f where f: "float_of_int n = Inr f" and v: "int_of_float (fmul f c) = Inr v"
    by (auto simp: int_mul_float_def py_bind_eq_Inr)
  from v obtain y where y: "fmul f c = Fin y" "v = trunc y" by (cases "fmul f c") auto
  from y(1) have "y = round_unb (f * c)" unfolding fmul_def by (rule round_double_FinD)
  then show ?thesis using y(2) float_of_int_InrD[OF f] by simp
qed

lemma int_mul_float_mono:
  assumes "0 \<le> a" "a \<le> b" "0 \<le> c" "c \<le> c'"
    and "int_mul_float a c = Inr v" "int_mul_float b c' = Inr w"
  shows "0 \<le> v \<and> v \<le> w"
proof -
  have fa: "0 \<le> round_unb (of_int a)" using assms(1) by (intro round_unb_nonneg) simp
  have fab: "round_unb (of_int a) \<le> round_unb (of_int b)"
    using assms(1,2) by (intro round_unb_mono) simp_all
  have "round_unb (of_int a) * c \<le> round_unb (of_int b) * c'"
    using fa fab assms(3,4) by (intro mult_mono) simp_all
  moreover have p: "0 \<le> round_unb (of_int a) * c" using fa assms(3) by simp
  ultimately have "round_unb (round_unb (of_int a) * c) \<le> round_unb (round_unb (of_int b) * c')"
    by (intro round_unb_mono)
  moreover have "0 \<le> round_unb (round_unb (of_int a) * c)" using p by (rule round_unb_nonneg)
  ultimately show ?thesis
    unfolding int_mul_float_InrD[OF assms(5)] int_mul_float_InrD[OF assms(6)]
    by (simp add: trunc_mono trunc_nonneg_le)
qed

lemma math_pow_InrD:
  "math_pow x k = Inr p \<Longrightarrow> p = round_unb (x powi \<lfloor>round_unb (of_int k)\<rfloor>)"
proof -
  assume "math_pow x k = Inr p"
  then obtain y where y: "float_of_int k = Inr y"
    and c: "(case round_double (x powi \<lfloor>y\<rfloor>) of Fin p \<Rightarrow> Inr p | _ \<Rightarrow> Inl OverflowError) = Inr p"
    by (auto simp: math_pow_def py_bind_eq_Inr)
  from c have "round_double (x powi \<lfloor>y\<rfloor>) = Fin p"
    by (cases "round_double (x powi \<lfloor>y\<rfloor>)") simp_all
  then have "p = round_unb (x powi \<lfloor>y\<rfloor>)" by (rule round_double_FinD)
  then show ?thesis using float_of_int_InrD[OF y] by simp
qed

lemma round_unb_nonpos: "x \<le> 0 \<Longrightarrow> round_unb x \<le> 0"
proof -
  assume h: "x \<le> 0"
  have "x / quantum x \<le> 0" using h quantum_pos[of x] by (simp add: divide_le_0_iff)
  then have "round_half_even (x / quantum x) \<le> 0" using rhe_upper[of _ 0] by simp
  then have "(of_int (round_half_even (x / quantum x)) :: rat) * quantum x \<le> 0"
    using quantum_pos[of x] by (simp add: mult_le_0_iff)
  then show ?thesis by (simp add: round_unb_def Let_def)
qed

lemma math_pow_mono:
  assumes "0 \<le> k" "k \<le> k'" "math_pow (9 / 8) k = Inr p" "math_pow (9 / 8) k' = Inr p'"
  shows "0 \<le> p \<and> p \<le> p'"
proof -
  have "round_unb (of_int k) \<le> round_unb (of_int k')"
    using assms(1,2) by (intro round_unb_mono) simp_all
  then have "\<lfloor>round_unb (of_int k)\<rfloor> \<le> \<lfloor>round_unb (of_int k')\<rfloor>" by (rule floor_mono)
  then have "(9 / 8 :: rat) powi \<lfloor>round_unb (of_int k)\<rfloor> \<le> (9 / 8) powi \<lfloor>round_unb (of_int k')\<rfloor>"
    by (intro power_int_increasing) simp_all
  moreover have "0 \<le> (9 / 8 :: rat) powi \<lfloor>round_unb (of_int k)\<rfloor>" by simp
  ultimately show ?thesis
    unfolding math_pow_InrD[OF assms(3)] math_pow_InrD[OF assms(4)]
    by (simp add: round_unb_mono round_unb_nonneg)
qed

text \<open>For a negative exponent the multiplier lies between 0 and 1.\<close>

lemma math_pow_negative_InrD:
  assumes "k < 0" "math_pow (9 / 8) k = Inr p"
  shows "0 \<le> p \<and> p \<le> 1"
proof -
  have "round_unb (of_int k) \<le> 0" using assms(1) by (intro round_unb_nonpos) simp
  then have "\<lfloor>round_unb (of_int k)\<rfloor> \<le> \<lfloor>0 :: rat\<rfloor>" by (rule floor_mono)
  then have "\<lfloor>round_unb (of_int k)\<rfloor> \<le> 0" by simp
  then have "(9 / 8 :: rat) powi \<lfloor>round_unb (of_int k)\<rfloor> \<le> (9 / 8) powi 0"
    by (intro power_int_increasing) simp_all
  then have le: "(9 / 8 :: rat) powi \<lfloor>round_unb (of_int k)\<rfloor> \<le> 1" by simp
  have nn: "0 \<le> (9 / 8 :: rat) powi \<lfloor>round_unb (of_int k)\<rfloor>" by simp
  have "round_unb 1 = (1::rat)" using round_unb_exact[where m = 1 and k = 0 and x = 1] by simp
  then show ?thesis
    unfolding math_pow_InrD[OF assms(2)]
    using round_unb_mono[OF nn le] round_unb_nonneg[OF nn] by simp
qed

lemma project_mono:
  assumes "0 \<le> n" "0 \<le> k" "k \<le> k'"
    and "calculate_max_base_fee n k = Inr v" "calculate_max_base_fee n k' = Inr w"
  shows "0 \<le> v \<and> v \<le> w"
proof -
  from assms(4) obtain p where p: "math_pow (9 / 8) k = Inr p" "int_mul_float n p = Inr v"
    by (auto simp: calculate_max_base_fee_def py_bind_eq_Inr float_lit_9_8)
  from assms(5) obtain p' where p': "math_pow (9 / 8) k' = Inr p'" "int_mul_float n p' = Inr w"
    by (auto simp: calculate_max_base_fee_def py_bind_eq_Inr float_lit_9_8)
  from math_pow_mono[OF assms(2,3) p(1) p'(1)] have "0 \<le> p" "p \<le> p'" by simp_all
  then show ?thesis using int_mul_float_mono[OF assms(1) _ _ _ p(2) p'(2)] by simp
qed

text \<open>Above any positive \<open>x\<close> in the normal range there is a binary64 number within one
  spacing of the rounding of \<open>x\<close>.\<close>

lemma next_double:
  assumes "1 \<le> x"
  shows "\<exists>u. x \<le> u \<and> round_unb u = u \<and> u \<le> round_unb x + quantum x
             \<and> 2 powi 52 * quantum x \<le> round_unb x"
proof -
  have nz: "x \<noteq> 0" and xpos: "0 < x" using assms by simp_all
  define e where "e = ilog2 x"
  have "(2::rat) powi 0 \<le> \<bar>x\<bar>" using assms by simp
  also have "\<bar>x\<bar> < 2 powi (e + 1)" unfolding e_def by (rule ilog2_bounds(2)[OF nz])
  finally have "0 < e + 1" by (rule pow2_less_cancel)
  then have e0: "0 \<le> e" by simp
  define q :: rat where "q = 2 powi (e - 52)"
  have q: "quantum x = q" using e0 by (simp add: quantum_def q_def e_def[symmetric] max_def)
  have qpos: "0 < q" by (simp add: q_def)
  have pe: "(2::rat) powi e = 2 powi 52 * q" unfolding q_def
    by (subst power_int_add[symmetric]) simp_all
  have pe1: "(2::rat) powi (e + 1) = 2 powi 53 * q"
  proof -
    have "(2::rat) powi (53 + (e - 52)) = 2 powi 53 * 2 powi (e - 52)"
      by (rule power_int_add) simp
    moreover have "53 + (e - 52) = e + 1" by simp
    ultimately show ?thesis by (simp only: q_def)
  qed
  define j where "j = \<lfloor>x / q\<rfloor>"
  have lo: "2 powi 52 * q \<le> x" using ilog2_bounds(1)[OF nz] xpos by (simp add: e_def[symmetric] pe)
  have hi: "x < 2 powi 53 * q" using ilog2_bounds(2)[OF nz] xpos by (simp add: e_def[symmetric] pe1)
  have "of_int (2 ^ 52) \<le> x / q" using lo qpos by (simp add: pos_le_divide_eq)
  then have j_lo: "2 ^ 52 \<le> j" unfolding j_def by (simp only: le_floor_iff)
  have "x / q < of_int (2 ^ 53)" using hi qpos by (simp add: pos_divide_less_eq)
  then have j_hi: "j < 2 ^ 53" unfolding j_def by (simp only: floor_less_iff)
  have r: "round_unb x = of_int (round_half_even (x / q)) * q"
    using nz q by (simp add: round_unb_unfold)
  have rj: "j \<le> round_half_even (x / q)" unfolding j_def by (rule rhe_ge_floor)
  then have rlo: "of_int j * q \<le> round_unb x"
    unfolding r using qpos by (intro mult_right_mono) simp_all
  define u where "u = of_int (j + 1) * q"
  have "x / q < of_int (j + 1)" unfolding j_def by linarith
  then have xu: "x \<le> u" unfolding u_def using qpos by (simp add: pos_divide_less_eq)
  have uu: "round_unb u = u"
  proof (cases "j + 1 = 2 ^ 53")
    case True
    then have "u = of_int 1 * 2 powi (e + 1)" by (simp add: u_def pe1)
    then show ?thesis by (rule round_unb_exact) (use e0 in simp_all)
  next
    case False
    then have "\<bar>j + 1\<bar> < 2 ^ 53" using j_lo j_hi by simp
    moreover have "u = of_int (j + 1) * 2 powi (e - 52)" by (simp add: u_def q_def)
    ultimately show ?thesis using e0 by (intro round_unb_exact[where m = "j + 1" and k = "e - 52"]) simp_all
  qed
  have "u = of_int j * q + q" by (simp add: u_def algebra_simps)
  then have ur: "u \<le> round_unb x + quantum x" using rlo q by simp
  have "(2 powi 52 :: rat) * q = of_int (2 ^ 52) * q" by simp
  also have "\<dots> \<le> of_int j * q" using j_lo qpos
    by (intro mult_right_mono) (simp_all only: of_int_le_iff less_imp_le)
  finally have "2 powi 52 * quantum x \<le> round_unb x" using rlo q by simp
  with xu uu ur show ?thesis by blast
qed

lemma int_mul_float_grows:
  assumes "0 \<le> m" "9 / 8 \<le> c" "int_mul_float m c = Inr v"
  shows "m \<le> v"
proof (cases "m = 0")
  case True
  then show ?thesis using int_mul_float_InrD[OF assms(3)] by (simp add: round_unb_def trunc_def)
next
  case False
  then have "1 \<le> (of_int m :: rat)" using assms(1) by simp
  from next_double[OF this] obtain u where u: "of_int m \<le> u" "round_unb u = u"
    "u \<le> round_unb (of_int m) + quantum (of_int m)"
    "2 powi 52 * quantum (of_int m) \<le> round_unb (of_int m)" by blast
  define f where "f = round_unb (of_int m)"
  define q where "q = quantum (of_int m)"
  have qpos: "0 < q" unfolding q_def by (rule quantum_pos)
  have "8 * q \<le> 2 powi 52 * q" using qpos by simp
  then have f8: "8 * q \<le> f" using u(4) by (simp add: f_def q_def)
  then have fpos: "0 \<le> f" using qpos by linarith
  have "f + q \<le> f * (9 / 8)" using f8 by simp
  also have "\<dots> \<le> f * c" using fpos assms(2) by (intro mult_left_mono) simp_all
  finally have "u \<le> f * c" using u(3) by (simp add: f_def q_def)
  moreover have "0 \<le> u" using u(1) assms(1) by (meson of_int_0_le_iff order_trans)
  ultimately have "round_unb u \<le> round_unb (f * c)" by (intro round_unb_mono)
  then have "of_int m \<le> round_unb (f * c)" using u(1,2) by simp
  then have "m \<le> \<lfloor>round_unb (f * c)\<rfloor>" by (simp only: le_floor_iff)
  moreover have "0 \<le> round_unb (f * c)" using \<open>of_int m \<le> round_unb (f * c)\<close> assms(1)
    by (meson of_int_0_le_iff order_trans)
  ultimately show ?thesis
    unfolding int_mul_float_InrD[OF assms(3)] f_def[symmetric] by (simp add: trunc_def)
qed

lemma int_mul_float_eval:
  assumes "\<bar>n\<bar> \<le> 2 ^ 53" "round_unb (of_int n * c) = y" "\<bar>y\<bar> < 2 powi 1024"
  shows "int_mul_float n c = Inr (trunc y)"
  using round_double_fin[OF assms(2,3)]
  by (simp add: int_mul_float_def float_of_int_exact[OF assms(1)] fmul_def)

lemma int_mul_float_100_12: "int_mul_float 100 (float_lit (6 / 5)) = Inr 120"
proof -
  have "round_unb (of_int 100 * (5404319552844595 / 4503599627370496))
        = of_int 8444249301319680 * 2 powi (- 46)"
    by (rule round_unb_near[where e = 6]) simp_all
  then have "int_mul_float 100 (5404319552844595 / 4503599627370496)
        = Inr (trunc (of_int 8444249301319680 * 2 powi (- 46)))"
    by (rule int_mul_float_eval[rotated]) simp_all
  then show ?thesis by (simp add: float_lits)
qed

lemma column_nonneg:
  assumes "column i rs = Inr c" "\<forall>r\<in>set rs. \<forall>x\<in>set r. 0 \<le> x"
  shows "\<forall>x\<in>set c. 0 \<le> x"
  using assms
proof (induction rs arbitrary: c)
  case Nil
  then show ?case by simp
next
  case (Cons r rs)
  from Cons.prems(1) obtain c' where c': "i < length r" "column i rs = Inr c'" "c = r ! i # c'"
    by (auto simp: py_bind_eq_Inr split: if_splits)
  have "0 \<le> r ! i" using c'(1) Cons.prems(2) by simp
  moreover have "\<forall>x\<in>set c'. 0 \<le> x" using Cons.IH[OF c'(2)] Cons.prems(2) by simp
  ultimately show ?case using c'(3) by simp
qed

lemma int_truediv_InrD: "int_truediv a b = Inr y \<Longrightarrow> y = round_unb (of_int a / of_int b)"
  by (auto simp: int_truediv_def dest: round_double_FinD split: if_splits pyfloat.splits)

lemma int_median_nonneg:
  assumes "int_median xs = Inr m" "\<forall>x\<in>set xs. 0 \<le> x"
  shows "0 \<le> m"
proof -
  define s where "s = sort xs"
  have mem: "\<And>i. i < length s \<Longrightarrow> 0 \<le> s ! i"
  proof -
    fix i assume "i < length s"
    then have "s ! i \<in> set s" by simp
    then have "s ! i \<in> set xs" by (simp add: s_def)
    then show "0 \<le> s ! i" using assms(2) by blast
  qed
  from assms(1) obtain v where v: "median xs = Inr v" "m = py_int v"
    by (auto simp: int_median_def py_bind_eq_Inr)
  have ne: "s \<noteq> []" using v(1) by (auto simp: median_def Let_def s_def[symmetric] split: if_splits)
  then have n: "0 < length s" by simp
  show ?thesis
  proof (cases "length s mod 2 = 1")
    case True
    then have "v = IntV (s ! (length s div 2))"
      using v(1) ne by (simp add: median_def Let_def s_def[symmetric])
    then show ?thesis using v(2) mem[of "length s div 2"] n by simp
  next
    case False
    define a where "a = s ! (length s div 2 - 1) + s ! (length s div 2)"
    have "length s div 2 < length s" using n by simp
    moreover from this have "length s div 2 - 1 < length s" by linarith
    ultimately have "length s div 2 - 1 < length s" "length s div 2 < length s" by blast+
    then have "0 \<le> s ! (length s div 2 - 1)" "0 \<le> s ! (length s div 2)"
      using mem by blast+
    then have a: "0 \<le> a" unfolding a_def by linarith
    from v(1) False ne obtain y where y: "int_truediv a 2 = Inr y" "v = FloatV y"
      by (auto simp: median_def Let_def s_def[symmetric] a_def py_bind_eq_Inr)
    have "0 \<le> (of_int a :: rat) / of_int 2" using a by simp
    then have "0 \<le> y" unfolding int_truediv_InrD[OF y(1)] by (rule round_unb_nonneg)
    then show ?thesis using v(2) y(2) by (simp add: trunc_nonneg_le)
  qed
qed

lemma enforce_minimum_ordered:
  assumes run: "enforce_minimum m30 m60 m75 m90 = Inr (t30, t60, t75, t90)" and nn: "0 \<le> m30"
  shows "0 \<le> t30 \<and> t30 \<le> t60 \<and> t60 \<le> t75 \<and> t75 \<le> t90"
proof -
  from run have t30: "t30 = m30"
    and e60: "(if m60 \<le> m30
               then (if 0 < m30 then int_mul_float m30 (float_lit (6 / 5)) else Inr 1000000000)
               else Inr m60) = Inr t60"
    and e75: "(if m75 \<le> t60 then int_mul_float t60 (float_lit (23 / 20)) else Inr m75) = Inr t75"
    and e90: "(if m90 \<le> t75
               then (if 0 < t75 then int_mul_float t75 (float_lit (6 / 5)) else Inr 1500000000)
               else Inr m90) = Inr t90"
    unfolding enforce_minimum_def py_bind_eq_Inr by auto
  have c12: "9 / 8 \<le> float_lit (6 / 5)" and c115: "9 / 8 \<le> float_lit (23 / 20)"
    by (simp_all add: float_lits)
  have o1: "m30 \<le> t60"
    using e60 nn int_mul_float_grows[OF nn c12, of t60] by (auto split: if_splits)
  then have n60: "0 \<le> t60" using nn by simp
  have o2: "t60 \<le> t75"
    using e75 int_mul_float_grows[OF n60 c115, of t75] by (auto split: if_splits)
  then have n75: "0 \<le> t75" using n60 by simp
  have o3: "t75 \<le> t90"
    using e90 n75 int_mul_float_grows[OF n75 c12, of t90] by (auto split: if_splits)
  show ?thesis using t30 nn o1 o2 o3 by simp
qed

lemma smoothed_tips_ordered:
  assumes run: "smoothed_tips d = Inr (t30, t60, t75, t90)"
    and nn: "\<forall>r\<in>set (reward d). \<forall>x\<in>set r. 0 \<le> x"
  shows "0 \<le> t30 \<and> t30 \<le> t60 \<and> t60 \<le> t75 \<and> t75 \<le> t90"
proof -
  from run obtain c0 m30 m60 m75 m90 where
    c0: "column 0 (reward d) = Inr c0" and m30: "int_median c0 = Inr m30"
    and e: "enforce_minimum m30 m60 m75 m90 = Inr (t30, t60, t75, t90)"
    unfolding smoothed_tips_def py_bind_eq_Inr by blast
  have "0 \<le> m30" using int_median_nonneg[OF m30 column_nonneg[OF c0 nn]] .
  with e show ?thesis by (rule enforce_minimum_ordered)
qed

lemma congestion_multiplier_nonneg: "0 \<le> congestion_multiplier avg"
  by (simp add: congestion_multiplier_def float_lits)

lemma apply_congestion_ordered:
  assumes run: "apply_congestion c (t30, t60, t75, t90) = Inr (a30, a60, a75, a90)"
    and c: "0 \<le> c" and o: "0 \<le> t30" "t30 \<le> t60" "t60 \<le> t75" "t75 \<le> t90"
  shows "0 \<le> a30 \<and> a30 \<le> a60 \<and> a60 \<le> a75 \<and> a75 \<le> a90"
proof -
  from run have r: "int_mul_float t30 c = Inr a30" "int_mul_float t60 c = Inr a60"
    "int_mul_float t75 c = Inr a75" "int_mul_float t90 c = Inr a90"
    by (auto simp: apply_congestion_def py_bind_eq_Inr)
  have n60: "0 \<le> t60" and n75: "0 \<le> t75" using o by simp_all
  from int_mul_float_mono[OF o(1,2) c order_refl r(1,2)]
    int_mul_float_mono[OF n60 o(3) c order_refl r(2,3)]
    int_mul_float_mono[OF n75 o(4) c order_refl r(3,4)]
  show ?thesis by simp
qed

text \<open>For a base fee below \<open>2^49\<close> and up to ten blocks ahead the projector returns the
  floor of the exact product, or one more.\<close>

lemma project_near_floor:
  assumes n: "0 \<le> n" "n < 2 ^ 49" and k: "0 \<le> k" "k \<le> 10"
  shows "\<exists>v. calculate_max_base_fee n k = Inr v \<and> drift_floor n k \<le> v \<and> v \<le> drift_floor n k + 1"
proof -
  define x :: rat where "x = of_int n * (9 / 8) powi k"
  define F where "F = \<lfloor>x\<rfloor>"
  have p: "math_pow (9 / 8) k = Inr ((9 / 8) powi k)" using k by (intro math_pow_1125_exact) simp_all
  have f: "float_of_int n = Inr (of_int n)" using n by (intro float_of_int_exact) simp
  have "(9 / 8 :: rat) powi k \<le> (9 / 8) powi 10" using k by (intro power_int_increasing) simp_all
  also have "\<dots> \<le> 4" by (simp add: power_divide)
  finally have p4: "(9 / 8 :: rat) powi k \<le> 4" .
  have x0: "0 \<le> x" using n by (simp add: x_def)
  have "(of_int n :: rat) \<le> of_int (2 ^ 49)" using n by (simp only: of_int_le_iff)
  then have "x \<le> of_int (2 ^ 49) * 4" unfolding x_def using p4 n by (intro mult_mono) simp_all
  then have x51: "x \<le> of_int (2 ^ 51)" by simp
  have F0: "0 \<le> F" using x0 by (simp add: F_def)
  have "F \<le> 2 ^ 51" unfolding F_def using floor_mono[OF x51] by simp
  then have F1: "\<bar>F + 1\<bar> \<le> 2 ^ 53" and F2: "\<bar>F\<bar> \<le> 2 ^ 53" using F0 by simp_all
  have lo: "of_int F \<le> x" and hi: "x \<le> of_int (F + 1)" unfolding F_def by linarith+
  from round_double_upper[OF x0 hi round_double_int[OF F1]] obtain a
    where a: "round_double x = Fin a" "0 \<le> a" "a \<le> of_int (F + 1)" by blast
  have "(0::rat) \<le> of_int F" using F0 by simp
  from round_double_lower[OF this lo round_double_int[OF F2] a(1)] have la: "of_int F \<le> a" .
  have v: "calculate_max_base_fee n k = Inr (trunc a)"
    using a(1) by (simp add: calculate_max_base_fee_def float_lit_9_8 p int_mul_float_def f
        fmul_def x_def)
  have "F \<le> \<lfloor>a\<rfloor>" using floor_mono[OF la] by simp
  moreover have "\<lfloor>a\<rfloor> \<le> F + 1" using floor_mono[OF a(3)] by simp
  ultimately have "F \<le> trunc a \<and> trunc a \<le> F + 1" using a(2) by (simp add: trunc_def)
  then show ?thesis using v by (simp add: drift_floor_def x_def F_def)
qed

lemma project_200_bracket:
  "calculate_max_base_fee 200 5 = Inr 360" "calculate_max_base_fee 200 6 = Inr 405"
  using project_exact[of 200 5] project_exact[of 200 6] by (simp_all add: power_divide)

text \<open>No number of blocks ahead projects a base fee of 200 to 400: the projector is
  monotone in the number of blocks, and 400 lies between its values for 5 and 6.\<close>

lemma project_200_never_400: "calculate_max_base_fee 200 k \<noteq> Inr 400"
proof
  assume h: "calculate_max_base_fee 200 k = Inr 400"
  consider "k < 0" | "0 \<le> k" "k \<le> 5" | "6 \<le> k" by linarith
  then show False
  proof cases
    case 1
    from h obtain p where p: "math_pow (9 / 8) k = Inr p" "int_mul_float 200 p = Inr 400"
      by (auto simp: calculate_max_base_fee_def py_bind_eq_Inr float_lit_9_8)
    from math_pow_negative_InrD[OF 1 p(1)] have "0 \<le> p" "p \<le> 1" by simp_all
    from int_mul_float_shrink[OF _ _ this, of 200] p(2) show False by simp
  next
    case 2
    from project_mono[OF _ 2 h project_200_bracket(1)] show False by simp
  next
    case 3
    from project_mono[OF _ _ 3 project_200_bracket(2) h] show False by simp
  qed
qed

text \<open>The binary64 numbers around an \<open>x \<ge> 1\<close>: \<open>x\<close> lies between two neighbours
  \<open>j * q\<close> and \<open>(j + 1) * q\<close> of the grid of spacing \<open>q = quantum x\<close>, and so does its
  rounding.\<close>

lemma double_grid:
  assumes "1 \<le> x"
  shows "\<exists>e j. 0 \<le> e \<and> quantum x = 2 powi (e - 52) \<and> 2 ^ 52 \<le> j \<and> j < 2 ^ 53
     \<and> of_int j * quantum x \<le> x \<and> x < of_int (j + 1) * quantum x
     \<and> of_int j * quantum x \<le> round_unb x \<and> round_unb x \<le> of_int (j + 1) * quantum x"
proof -
  have nz: "x \<noteq> 0" and xpos: "0 < x" using assms by simp_all
  define e where "e = ilog2 x"
  have "(2::rat) powi 0 \<le> \<bar>x\<bar>" using assms by simp
  also have "\<bar>x\<bar> < 2 powi (e + 1)" unfolding e_def by (rule ilog2_bounds(2)[OF nz])
  finally have "0 < e + 1" by (rule pow2_less_cancel)
  then have e0: "0 \<le> e" by simp
  define q :: rat where "q = 2 powi (e - 52)"
  have q: "quantum x = q" using e0 by (simp add: quantum_def q_def e_def[symmetric] max_def)
  have qpos: "0 < q" by (simp add: q_def)
  have pe: "(2::rat) powi e = 2 powi 52 * q" unfolding q_def
    by (subst power_int_add[symmetric]) simp_all
  have pe1: "(2::rat) powi (e + 1) = 2 powi 53 * q"
  proof -
    have "(2::rat) powi (53 + (e - 52)) = 2 powi 53 * 2 powi (e - 52)"
      by (rule power_int_add) simp
    moreover have "53 + (e - 52) = e + 1" by simp
    ultimately show ?thesis by (simp only: q_def)
  qed
  define j where "j = \<lfloor>x / q\<rfloor>"
  have lo: "2 powi 52 * q \<le> x" using ilog2_bounds(1)[OF nz] xpos by (simp add: e_def[symmetric] pe)
  have hi: "x < 2 powi 53 * q" using ilog2_bounds(2)[OF nz] xpos by (simp add: e_def[symmetric] pe1)
  have "of_int (2 ^ 52) \<le> x / q" using lo qpos by (simp add: pos_le_divide_eq)
  then have j_lo: "2 ^ 52 \<le> j" unfolding j_def by (simp only: le_floor_iff)
  have "x / q < of_int (2 ^ 53)" using hi qpos by (simp add: pos_divide_less_eq)
  then have j_hi: "j < 2 ^ 53" unfolding j_def by (simp only: floor_less_iff)
  have r: "round_unb x = of_int (round_half_even (x / q)) * q"
    using nz q by (simp add: round_unb_unfold)
  have "j \<le> round_half_even (x / q)" unfolding j_def by (rule rhe_ge_floor)
  then have "(of_int j :: rat) \<le> of_int (round_half_even (x / q))" by (simp only: of_int_le_iff)
  then have rlo: "of_int j * q \<le> round_unb x"
    unfolding r using qpos by (intro mult_right_mono) simp_all
  have "round_half_even (x / q) \<le> j + 1" unfolding j_def by (rule rhe_le_floor1)
  then have "(of_int (round_half_even (x / q)) :: rat) \<le> of_int (j + 1)" by (simp only: of_int_le_iff)
  then have rhi: "round_unb x \<le> of_int (j + 1) * q"
    unfolding r using qpos by (intro mult_right_mono) simp_all
  have "of_int j \<le> x / q" unfolding j_def by simp
  then have xlo: "of_int j * q \<le> x" using qpos by (simp add: pos_le_divide_eq)
  have "x / q < of_int (j + 1)" unfolding j_def by linarith
  then have xhi: "x < of_int (j + 1) * q" using qpos by (simp add: pos_divide_less_eq)
  show ?thesis
    unfolding q using e0 j_lo j_hi xlo xhi rlo rhi q_def by blast
qed

lemma grid_exact:
  assumes "0 \<le> e" "0 \<le> i" "i \<le> 2 ^ 53"
  shows "round_unb (of_int i * 2 powi (e - 52)) = of_int i * 2 powi (e - 52)"
proof (cases "i = 2 ^ 53")
  case True
  have "(2::rat) powi (53 + (e - 52)) = 2 powi 53 * 2 powi (e - 52)"
    by (rule power_int_add) simp
  moreover have "53 + (e - 52) = e + 1" by simp
  ultimately have "of_int i * 2 powi (e - 52) = of_int 1 * (2::rat) powi (e + 1)"
    using True by simp
  then show ?thesis by (rule round_unb_exact) (use assms in simp_all)
next
  case False
  then have "\<bar>i\<bar> < 2 ^ 53" using assms by simp
  then show ?thesis using assms(1) by (intro round_unb_exact[where m = i and k = "e - 52"]) simp_all
qed

lemma int_mul_float_decreases:
  assumes t: "1 \<le> t" and c: "0 \<le> c" "c \<le> 31 / 32" and run: "int_mul_float t c = Inr v"
  shows "0 \<le> v \<and> v < t"
proof -
  define x :: rat where "x = of_int t"
  have x1: "1 \<le> x" using t by (simp add: x_def)
  from double_grid[OF x1] obtain e j where g: "0 \<le> e" "quantum x = 2 powi (e - 52)"
    "2 ^ 52 \<le> j" "j < 2 ^ 53" "of_int j * quantum x \<le> x"
    "round_unb x \<le> of_int (j + 1) * quantum x" by blast
  define q where "q = quantum x"
  define f where "f = round_unb x"
  have qpos: "0 < q" unfolding q_def by (rule quantum_pos)
  have fpos: "0 \<le> f" unfolding f_def using x1 by (intro round_unb_nonneg) simp
  define d :: rat where "d = of_int (j - 1) * q"
  have dd: "round_unb d = d" unfolding d_def q_def g(2) using g(1,3,4) by (intro grid_exact) simp_all
  have d0: "0 \<le> d" unfolding d_def using g(3) qpos by simp
  define A where "A = of_int j * q"
  have dq: "d = A - q" by (simp add: d_def A_def algebra_simps)
  have dx: "d < x" using g(5) qpos unfolding dq A_def by (simp add: q_def)
  have "(64::rat) \<le> of_int j" using g(3) by simp
  then have "64 * q \<le> of_int j * q" using qpos by (intro mult_right_mono) simp_all
  then have j64: "64 * q \<le> A" by (simp only: A_def)
  have j1: "of_int (j + 1) * q = A + q" by (simp add: A_def algebra_simps)
  have "(A + q) * (31 / 32) = A * (31 / 32) + q * (31 / 32)" by (rule distrib_right)
  then have "(A + q) * (31 / 32) \<le> A - q" using j64 qpos by linarith
  then have 1: "of_int (j + 1) * q * (31 / 32) \<le> d" by (simp only: j1 dq)
  have "f \<le> of_int (j + 1) * q" using g(6) by (simp add: f_def q_def)
  then have "f * (31 / 32) \<le> of_int (j + 1) * q * (31 / 32)"
    by (intro mult_right_mono) simp_all
  with 1 have "f * (31 / 32) \<le> d" by linarith
  moreover have "f * c \<le> f * (31 / 32)" using fpos c(2) by (intro mult_left_mono) simp_all
  ultimately have "f * c \<le> d" by linarith
  moreover have p0: "0 \<le> f * c" using fpos c(1) by simp
  ultimately have "round_unb (f * c) \<le> d" using round_unb_mono[of "f * c" d] dd by simp
  then have "round_unb (f * c) < of_int t" using dx by (simp add: x_def)
  moreover have y0: "0 \<le> round_unb (f * c)" using p0 by (rule round_unb_nonneg)
  ultimately have "\<lfloor>round_unb (f * c)\<rfloor> < t" "0 \<le> \<lfloor>round_unb (f * c)\<rfloor>"
    by (simp_all add: floor_less_iff)
  then show ?thesis
    unfolding int_mul_float_InrD[OF run] x_def[symmetric] f_def[symmetric] using y0
    by (simp add: trunc_def)
qed

lemma int_mul_float_increases:
  assumes t: "1 \<le> t" and c: "9 / 8 \<le> c" "of_int t + 1 \<le> of_int t * c"
    and run: "int_mul_float t c = Inr v"
  shows "t < v"
proof -
  define x :: rat where "x = of_int t"
  have x1: "1 \<le> x" using t by (simp add: x_def)
  define f where "f = round_unb x"
  have "\<exists>U. t < U \<and> round_unb (of_int U) = of_int U \<and> of_int U \<le> f * c"
  proof (cases "t < 2 ^ 52")
    case True
    have "\<bar>t\<bar> \<le> 2 ^ 53" "\<bar>t + 1\<bar> \<le> 2 ^ 53" using True t by simp_all
    then have "round_double (of_int t) = Fin (of_int t)"
      "round_double (of_int (t + 1)) = Fin (of_int (t + 1))" by (simp_all only: round_double_int)
    then have "f = of_int t" "round_unb (of_int (t + 1)) = of_int (t + 1)"
      unfolding f_def x_def by (simp_all only: round_double_FinD[symmetric])
    then show ?thesis using c(2) by (intro exI[of _ "t + 1"]) simp
  next
    case False
    from double_grid[OF x1] obtain e j where g: "0 \<le> e" "quantum x = 2 powi (e - 52)"
      "2 ^ 52 \<le> j" "j < 2 ^ 53" "x < of_int (j + 1) * quantum x"
      "of_int j * quantum x \<le> round_unb x" by blast
    define q where "q = quantum x"
    have qpos: "0 < q" unfolding q_def by (rule quantum_pos)
    have "(of_int (2 ^ 52) :: rat) \<le> x" using False unfolding x_def by (simp only: of_int_le_iff)
    then have "(2::rat) powi 52 \<le> x" by simp
    moreover have "x < 2 powi 53 * q"
    proof -
      have "(of_int (j + 1) :: rat) \<le> of_int (2 ^ 53)" using g(4) by (simp only: of_int_le_iff)
      then have "of_int (j + 1) * q \<le> of_int (2 ^ 53) * q" using qpos by (intro mult_right_mono) simp_all
      then show ?thesis using g(5) by (simp add: q_def)
    qed
    ultimately have "(2::rat) powi 52 < 2 powi 53 * 2 powi (e - 52)" by (simp add: q_def g(2))
    also have "(2::rat) powi 53 * 2 powi (e - 52) = 2 powi (53 + (e - 52))"
      by (rule power_int_add[symmetric]) simp
    finally have "52 < 53 + (e - 52)" by (rule pow2_less_cancel)
    then have e52: "0 \<le> e - 52" by simp
    define Q where "Q = (2::int) ^ nat (e - 52)"
    have qQ: "q = of_int Q" unfolding q_def g(2) Q_def using e52 by (rule pow2_int)
    define U where "U = (j + 1) * Q"
    have uU: "of_int (j + 1) * q = of_int U" by (simp add: U_def qQ)
    have "(of_int t :: rat) < of_int U" using g(5) unfolding uU[symmetric] by (simp add: x_def q_def)
    then have tU: "t < U" by (simp only: of_int_less_iff)
    have "round_unb (of_int (j + 1) * 2 powi (e - 52)) = of_int (j + 1) * 2 powi (e - 52)"
      using g(1,3,4) by (intro grid_exact) simp_all
    then have UU: "round_unb (of_int U) = of_int U" unfolding uU[symmetric] q_def g(2) .
    have "(8::rat) \<le> of_int j" using g(3) by simp
    then have "8 * q \<le> of_int j * q" using qpos by (intro mult_right_mono) simp_all
    then have f8: "8 * q \<le> f" using g(6) by (simp add: f_def q_def)
    then have fpos: "0 \<le> f" using qpos by linarith
    have "of_int j * q + q \<le> f + q" using g(6) by (simp add: f_def q_def)
    also have "f + q \<le> f * (9 / 8)" using f8 by simp
    also have "\<dots> \<le> f * c" using fpos c(1) by (intro mult_left_mono) simp_all
    finally have "of_int U \<le> f * c" unfolding uU[symmetric] by (simp add: algebra_simps)
    with tU UU show ?thesis by blast
  qed
  then obtain U where U: "t < U" "round_unb (of_int U) = of_int U" "of_int U \<le> f * c" by blast
  have "(0::rat) \<le> of_int U" using U(1) t by simp
  from round_unb_mono[OF this U(3)] have "of_int U \<le> round_unb (f * c)" by (simp only: U(2))
  then have "U \<le> \<lfloor>round_unb (f * c)\<rfloor>" by (simp only: le_floor_iff)
  moreover have "0 \<le> round_unb (f * c)"
    using \<open>of_int U \<le> round_unb (f * c)\<close> \<open>(0::rat) \<le> of_int U\<close> by linarith
  ultimately show ?thesis
    unfolding int_mul_float_InrD[OF run] x_def[symmetric] f_def[symmetric] using U(1)
    by (simp add: trunc_def)
qed

lemma flt_fgt_exclusive_45: "flt avg (float_lit (9 / 20)) \<Longrightarrow> \<not> fgt avg (float_lit (4 / 5))"
  by (cases avg) (simp_all add: float_lits)

lemma flt_fgt_exclusive_3: "flt avg (float_lit (3 / 10)) \<Longrightarrow> \<not> fgt avg (float_lit (4 / 5))"
  by (cases avg) (simp_all add: float_lits)

lemma int_mul_float_0: "int_mul_float 0 c = Inr 0"
proof -
  have "round_double 0 = Fin 0" using round_double_int[of 0] by simp
  moreover have "float_of_int 0 = Inr 0" using float_of_int_exact[of 0] by simp
  ultimately show ?thesis by (simp add: int_mul_float_def fmul_def trunc_def)
qed

lemma int_mul_float_exact:
  assumes "\<bar>n\<bar> \<le> 2 ^ 53" "round_double (of_int n * c) = Fin (of_int n * c)"
  shows "int_mul_float n c = Inr (trunc (of_int n * c))"
  using assms(2) by (simp add: int_mul_float_def float_of_int_exact[OF assms(1)] fmul_def)

lemma int_mul_float_5_12: "int_mul_float 5 (float_lit (6 / 5)) = Inr 6"
proof -
  have "round_unb (of_int 5 * (5404319552844595 / 4503599627370496))
        = of_int 6755399441055744 * 2 powi (- 50)"
    by (rule round_unb_near[where e = 2]) simp_all
  then have "int_mul_float 5 (5404319552844595 / 4503599627370496)
        = Inr (trunc (of_int 6755399441055744 * 2 powi (- 50)))"
    by (rule int_mul_float_eval[rotated]) simp_all
  then show ?thesis by (simp add: float_lits)
qed

text \<open>The surge multiplier 1.25 on the tips 0, 1, 2, 3 and 4.\<close>

lemma int_mul_float_5_4:
  "int_mul_float 1 (5 / 4) = Inr 1" "int_mul_float 2 (5 / 4) = Inr 2"
  "int_mul_float 3 (5 / 4) = Inr 3" "int_mul_float 4 (5 / 4) = Inr 5"
proof -
  have 1: "round_double (of_int 1 * (5 / 4)) = Fin (of_int 1 * (5 / 4))"
    by (rule round_double_exact[where m = 5 and k = "- 2"]) simp_all
  have 2: "round_double (of_int 2 * (5 / 4)) = Fin (of_int 2 * (5 / 4))"
    by (rule round_double_exact[where m = 5 and k = "- 1"]) simp_all
  have 3: "round_double (of_int 3 * (5 / 4)) = Fin (of_int 3 * (5 / 4))"
    by (rule round_double_exact[where m = 15 and k = "- 2"]) simp_all
  have 4: "round_double (of_int 4 * (5 / 4)) = Fin (of_int 4 * (5 / 4))"
    by (rule round_double_exact[where m = 5 and k = 0]) simp_all
  show "int_mul_float 1 (5 / 4) = Inr 1" using int_mul_float_exact[OF _ 1] by (simp add: trunc_def)
  show "int_mul_float 2 (5 / 4) = Inr 2" using int_mul_float_exact[OF _ 2] by (simp add: trunc_def)
  show "int_mul_float 3 (5 / 4) = Inr 3" using int_mul_float_exact[OF _ 3] by (simp add: trunc_def)
  show "int_mul_float 4 (5 / 4) = Inr 5" using int_mul_float_exact[OF _ 4] by (simp add: trunc_def)
qed

text \<open>The discount multipliers 0.95 and 0.9 on the tips 1, 2 and 4.\<close>

lemma int_mul_float_discount:
  "int_mul_float 1 (float_lit (19 / 20)) = Inr 0" "int_mul_float 2 (float_lit (19 / 20)) = Inr 1"
  "int_mul_float 4 (float_lit (19 / 20)) = Inr 3" "int_mul_float 4 (float_lit (9 / 10)) = Inr 3"
proof -
  have 1: "round_double (of_int 1 * (4278419646001971 / 4503599627370496))
      = Fin (of_int 1 * (4278419646001971 / 4503599627370496))"
    by (rule round_double_exact[where m = 4278419646001971 and k = "- 52"]) simp_all
  have 2: "round_double (of_int 2 * (4278419646001971 / 4503599627370496))
      = Fin (of_int 2 * (4278419646001971 / 4503599627370496))"
    by (rule round_double_exact[where m = 4278419646001971 and k = "- 51"]) simp_all
  have 3: "round_double (of_int 4 * (4278419646001971 / 4503599627370496))
      = Fin (of_int 4 * (4278419646001971 / 4503599627370496))"
    by (rule round_double_exact[where m = 4278419646001971 and k = "- 50"]) simp_all
  have 4: "round_double (of_int 4 * (8106479329266893 / 9007199254740992))
      = Fin (of_int 4 * (8106479329266893 / 9007199254740992))"
    by (rule round_double_exact[where m = 8106479329266893 and k = "- 51"]) simp_all
  show "int_mul_float 1 (float_lit (19 / 20)) = Inr 0"
    using int_mul_float_exact[OF _ 1] by (simp add: trunc_def float_lits)
  show "int_mul_float 2 (float_lit (19 / 20)) = Inr 1"
    using int_mul_float_exact[OF _ 2] by (simp add: trunc_def float_lits)
  show "int_mul_float 4 (float_lit (19 / 20)) = Inr 3"
    using int_mul_float_exact[OF _ 3] by (simp add: trunc_def float_lits)
  show "int_mul_float 4 (float_lit (9 / 10)) = Inr 3"
    using int_mul_float_exact[OF _ 4] by (simp add: trunc_def float_lits)
qed

lemma avg_congestion_single:
  "avg_congestion [7 / 8] = Inr (Fin (7 / 8))" "avg_congestion [1 / 4] = Inr (Fin (1 / 4))"
proof -
  have 1: "round_double (7 / 8) = Fin (7 / 8)"
    by (rule round_double_exact[where m = 7 and k = "- 3"]) simp_all
  have 2: "round_double (1 / 4) = Fin (1 / 4)"
    by (rule round_double_exact[where m = 1 and k = "- 2"]) simp_all
  have n: "float_of_int 1 = Inr 1" using float_of_int_exact[of 1] by simp
  show "avg_congestion [7 / 8] = Inr (Fin (7 / 8))" by (simp add: avg_congestion_def py_sum_def 1 n)
  show "avg_congestion [1 / 4] = Inr (Fin (1 / 4))" by (simp add: avg_congestion_def py_sum_def 2 n)
qed

lemma increase_5_4: "4 \<le> t \<Longrightarrow> (of_int t :: rat) + 1 \<le> of_int t * (5 / 4)"
proof -
  assume "4 \<le> t"
  then have "(4::rat) \<le> of_int t" by simp
  then show ?thesis by simp
qed

lemma increase_6_5: "6 \<le> t \<Longrightarrow> (of_int t :: rat) + 1 \<le> of_int t * float_lit (6 / 5)"
proof -
  assume "6 \<le> t"
  then have "(6::rat) \<le> of_int t" by simp
  then show ?thesis by (simp add: float_lits)
qed

text \<open>The projector can raise nothing but \<open>OverflowError\<close>.\<close>

lemma float_of_int_error: "float_of_int n = Inl e \<Longrightarrow> e = OverflowError"
  by (auto simp: float_of_int_def split: pyfloat.splits)

lemma int_of_float_error: "int_of_float f = Inl e \<Longrightarrow> e = OverflowError"
  by (cases f) auto

lemma int_mul_float_error: "int_mul_float n c = Inl e \<Longrightarrow> e = OverflowError"
  by (cases "float_of_int n")
    (auto simp: int_mul_float_def dest: float_of_int_error int_of_float_error)

lemma math_pow_error: "math_pow x k = Inl e \<Longrightarrow> e = OverflowError"
  by (cases "float_of_int k")
    (auto simp: math_pow_def dest: float_of_int_error split: pyfloat.splits)

lemma project_error: "calculate_max_base_fee b k = Inl e \<Longrightarrow> e = OverflowError"
  by (cases "math_pow (float_lit (1125 / 1000)) k")
    (auto simp: calculate_max_base_fee_def dest: math_pow_error int_mul_float_error)

lemma float_of_int_huge: "float_of_int (2 ^ 1024) = Inl OverflowError"
proof -
  have "round_unb (2 ^ 1024) = 2 ^ 1024"
    by (rule round_unb_exact[where m = 1 and k = 1024]) simp_all
  then have "round_double (2 ^ 1024) = PInf" by (simp add: round_double_def)
  then show ?thesis by (simp add: float_of_int_def)
qed

lemma project_huge: "calculate_max_base_fee (2 ^ 1024) 0 = Inl OverflowError"
  using float_of_int_huge by (simp add: calculate_max_base_fee_def math_pow_0 int_mul_float_def)

section \<open>The drift projector\<close>

text \<open>
  C7, as amended: for every base fee from 0 to \<open>2^53\<close>, the integers that the float
  conversion keeps exact, the projector with no block ahead returns the base unchanged.
\<close>

theorem project_zero_blocks:
  "0 \<le> base \<Longrightarrow> base \<le> 2 ^ 53 \<Longrightarrow> calculate_max_base_fee base 0 = Inr base"
  by (simp add: calculate_max_base_fee_def math_pow_0 int_mul_float_1)

theorem project_zero_blocks_witness:
  "(0::int) \<le> 200 \<and> (200::int) \<le> 2 ^ 53 \<and> calculate_max_base_fee 200 0 = Inr 200"
  using project_zero_blocks[of 200] by simp

text \<open>
  C7 as stated, for a base with no upper bound, fails: \<open>2^53 + 1\<close> is not a binary64
  number, the conversion rounds it to \<open>2^53\<close>, and that is what comes back.
\<close>

theorem project_zero_blocks_counterexample:
  "calculate_max_base_fee 9007199254740993 0 = Inr 9007199254740992
   \<and> calculate_max_base_fee 9007199254740993 0 \<noteq> Inr 9007199254740993"
proof -
  have "round_unb 9007199254740993 = of_int 4503599627370496 * 2 powi 1"
    by (rule round_unb_near[where e = 53]) simp_all
  then have "round_double 9007199254740993 = Fin 9007199254740992"
    by (simp add: round_double_def)
  then have 1: "float_of_int 9007199254740993 = Inr 9007199254740992"
    by (simp add: float_of_int_def)
  have "round_double (of_int 9007199254740992) = Fin (of_int 9007199254740992)"
    by (rule round_double_int) simp
  then have 2: "fmul 9007199254740992 1 = Fin (of_int 9007199254740992)"
    by (simp add: fmul_def)
  show ?thesis
    by (simp add: calculate_max_base_fee_def math_pow_0 int_mul_float_def 1 2)
qed

text \<open>
  C2, as amended: for every base fee \<open>base \<ge> 0\<close> and every \<open>k\<close> from 0 to 16 with
  \<open>base * 9^k < 2^53\<close>, where the float product is exact, the projector returns exactly
  \<open>floor(base * 1.125^k)\<close>; for base 200 and \<open>k = 4\<close> that is 320.
\<close>

theorem project_is_floor:
  assumes "0 \<le> base" "0 \<le> k" "k \<le> 16" "base * 9 ^ nat k < 2 ^ 53"
  shows "calculate_max_base_fee base k = Inr \<lfloor>of_int base * (9 / 8 :: rat) powi k\<rfloor>"
  using assms by (rule project_exact)

theorem project_is_floor_witness:
  "(0::int) \<le> 200 \<and> (0::int) \<le> 4 \<and> (4::int) \<le> 16 \<and> (200::int) * 9 ^ nat 4 < 2 ^ 53
   \<and> calculate_max_base_fee 200 4 = Inr \<lfloor>of_int 200 * (9 / 8 :: rat) powi 4\<rfloor>
   \<and> calculate_max_base_fee 200 4 = Inr 320"
  using project_is_floor[of 200 4] by (simp add: power_divide)

text \<open>
  C2 as stated, for every base, fails: at a base fee of 20701018 wei and \<open>k = 10\<close> the
  exact product is just below 67222851, the float product rounds up to it, and the
  projector returns one more than the floor.
\<close>

theorem project_is_floor_counterexample:
  "calculate_max_base_fee 20701018 10 = Inr 67222851
   \<and> \<lfloor>of_int 20701018 * (9 / 8 :: rat) powi 10\<rfloor> = 67222850"
proof -
  have "round_unb (20701018 * (9 / 8) powi 10) = of_int (67222851 * 2 ^ 26) * 2 powi (- 26)"
    by (rule round_unb_near[where e = 26]) (simp_all add: power_divide)
  then have "round_double (20701018 * (9 / 8) powi 10) = Fin 67222851"
    by (simp add: round_double_def)
  then have f: "fmul 20701018 ((9 / 8) ^ 10) = Fin 67222851"
    by (simp add: fmul_def)
  have b: "float_of_int 20701018 = Inr 20701018"
    using float_of_int_exact[of 20701018] by simp
  have 1: "calculate_max_base_fee 20701018 10 = Inr 67222851"
    using math_pow_1125_exact[of 10]
    by (simp add: calculate_max_base_fee_def float_lit_9_8 int_mul_float_def b f)
  have 2: "\<lfloor>of_int 20701018 * (9 / 8 :: rat) powi 10\<rfloor> = 67222850"
    by (rule floor_unique) (simp_all add: power_divide)
  from 1 2 show ?thesis by simp
qed

text \<open>
  C8, as amended: the projector validates nothing, and \<open>OverflowError\<close>, from the float
  arithmetic, is the only error it can raise. A negative \<open>blocksAhead\<close> is accepted and
  scales the base down: for \<open>blocksAhead\<close> from \<open>-2^53\<close> to -1 and a base from 0 to
  \<open>2^53\<close> the result lies between 0 and the base. No error is raised for
  \<open>blocksAhead\<close> from 0 to 970 and a base from 0 to \<open>2^53\<close>.
\<close>

theorem project_no_validation:
  "(k < 0 \<and> - (2 ^ 53) \<le> k \<and> 0 \<le> base \<and> base \<le> 2 ^ 53 \<longrightarrow>
      (\<exists>v. calculate_max_base_fee base k = Inr v \<and> 0 \<le> v \<and> v \<le> base))
   \<and> (0 \<le> k' \<and> k' \<le> 970 \<and> 0 \<le> base' \<and> base' \<le> 2 ^ 53 \<longrightarrow>
      (\<exists>v. calculate_max_base_fee base' k' = Inr v \<and> 0 \<le> v))
   \<and> (calculate_max_base_fee b j = Inl e \<longrightarrow> e = OverflowError)"
proof (intro conjI impI)
  assume h: "k < 0 \<and> - (2 ^ 53) \<le> k \<and> 0 \<le> base \<and> base \<le> 2 ^ 53"
  then obtain a where a: "math_pow (9 / 8) k = Inr a" "0 \<le> a" "a \<le> 1"
    using math_pow_negative[of k] by blast
  from int_mul_float_shrink[OF _ _ a(2,3), of base] h a(1)
  show "\<exists>v. calculate_max_base_fee base k = Inr v \<and> 0 \<le> v \<and> v \<le> base"
    by (simp add: calculate_max_base_fee_def float_lit_9_8)
next
  assume h: "0 \<le> k' \<and> k' \<le> 970 \<and> 0 \<le> base' \<and> base' \<le> 2 ^ 53"
  then obtain a where a: "math_pow (9 / 8) k' = Inr a" "0 \<le> a" "a \<le> 2 powi k'"
    using math_pow_bounded[of k'] by blast
  from int_mul_float_no_overflow[OF _ _ a(2,3), of base'] h a(1)
  show "\<exists>v. calculate_max_base_fee base' k' = Inr v \<and> 0 \<le> v"
    by (simp add: calculate_max_base_fee_def float_lit_9_8)
next
  assume "calculate_max_base_fee b j = Inl e"
  then show "e = OverflowError" by (rule project_error)
qed

theorem project_no_validation_witness:
  "((- 1 :: int) < 0 \<and> - (2 ^ 53) \<le> (- 1 :: int) \<and> (0::int) \<le> 1 \<and> (1::int) \<le> 2 ^ 53
    \<and> (\<exists>v. calculate_max_base_fee 1 (- 1) = Inr v \<and> 0 \<le> v \<and> v \<le> 1))
   \<and> ((0::int) \<le> 4 \<and> (4::int) \<le> 970 \<and> (0::int) \<le> 200 \<and> (200::int) \<le> 2 ^ 53
    \<and> (\<exists>v. calculate_max_base_fee 200 4 = Inr v \<and> 0 \<le> v))
   \<and> calculate_max_base_fee (2 ^ 1024) 0 = Inl OverflowError"
  using project_no_validation[of "- 1" 1 4 200 "2 ^ 1024" 0 OverflowError] project_huge
  by simp

text \<open>
  C8 as stated fails on both counts: \<open>blocksAhead = -1\<close> is not rejected (a base of 1
  is projected to 0), and with \<open>blocksAhead = 0\<close> a base of \<open>2^1024\<close> raises
  \<open>OverflowError\<close>.
\<close>

theorem project_no_validation_counterexample:
  "calculate_max_base_fee 1 (- 1) = Inr 0
   \<and> calculate_max_base_fee (2 ^ 1024) 0 = Inl OverflowError"
proof -
  have r: "round_double (15 / 16) = Fin (15 / 16)"
    by (rule round_double_exact[where m = 15 and k = "- 4"]) simp_all
  have "0 \<le> (9 / 8 :: rat) powi (- 1)" "(9 / 8 :: rat) powi (- 1) \<le> 15 / 16" by simp_all
  from round_double_upper[OF this r] obtain a
    where a: "round_double ((9 / 8) powi (- 1)) = Fin a" "0 \<le> a" "a \<le> 15 / 16" by blast
  from round_double_upper[OF a(2,3) r] obtain b
    where b: "round_double a = Fin b" "0 \<le> b" "b \<le> 15 / 16" by blast
  have "\<lfloor>b\<rfloor> = 0" using b by (intro floor_unique) simp_all
  then have t: "trunc b = 0" using b by (simp add: trunc_def)
  have f: "float_of_int 1 = Inr 1" using float_of_int_exact[of 1] by simp
  have 1: "calculate_max_base_fee 1 (- 1) = Inr 0"
    using a(1) b(1) t
    by (simp add: calculate_max_base_fee_def float_lit_9_8 math_pow_small int_mul_float_def f
        fmul_def)
  from 1 project_huge show ?thesis by simp
qed

section \<open>The priority-fee smoother\<close>

text \<open>
  C5, as amended: for every non-empty rewards column whose values lie from 0 to below
  \<open>2^52\<close>, the smoother \<open>int(statistics.median(column))\<close> returns the standard
  statistical median truncated to an integer; the column 1, ..., 10 has median 5.5 and
  yields 5.
\<close>

theorem median_is_standard:
  assumes ne: "xs \<noteq> []" and rng: "\<forall>x\<in>set xs. 0 \<le> x \<and> x < 2 ^ 52"
  shows "int_median xs = Inr \<lfloor>standard_median xs\<rfloor>"
proof -
  define s where "s = sort xs"
  define n where "n = length s"
  have n: "0 < n" using ne by (simp add: n_def s_def)
  have sne: "s \<noteq> []" using n by (auto simp: n_def)
  have mem: "\<And>i. i < n \<Longrightarrow> 0 \<le> s ! i \<and> s ! i < 2 ^ 52"
  proof -
    fix i assume "i < n"
    then have "s ! i \<in> set s" by (simp add: n_def)
    then have "s ! i \<in> set xs" by (simp add: s_def)
    then show "0 \<le> s ! i \<and> s ! i < 2 ^ 52" using rng by blast
  qed
  show ?thesis
  proof (cases "odd n")
    case True
    then have "n mod 2 = 1" by (simp add: odd_iff_mod_2_eq_one)
    then show ?thesis using n sne True
      by (simp add: int_median_def median_def standard_median_def Let_def s_def[symmetric] n_def[symmetric])
  next
    case False
    then have ev: "n mod 2 \<noteq> 1" by (simp add: odd_iff_mod_2_eq_one)
    define a where "a = s ! (n div 2 - 1)"
    define b where "b = s ! (n div 2)"
    have a': "s ! (n div 2 - Suc 0) = a" by (simp add: a_def)
    have "n div 2 - 1 < n" "n div 2 < n" using n by simp_all
    then have ab: "0 \<le> a + b" "a + b < 2 ^ 53" using mem[of "n div 2 - 1"] mem[of "n div 2"]
      by (simp_all add: a_def b_def)
    have t: "int_truediv (a + b) 2 = Inr (of_int (a + b) / 2)" using ab by (rule int_truediv_2)
    have nn: "0 \<le> (of_int (a + b) :: rat) / 2" using ab(1) by simp
    have im: "int_median xs = Inr (trunc (of_int (a + b) / 2))"
      using n sne ev t
      by (simp add: int_median_def median_def Let_def s_def[symmetric] n_def[symmetric]
          a' b_def[symmetric])
    have sm: "standard_median xs = of_int (a + b) / 2"
      using False
      by (simp add: standard_median_def Let_def s_def[symmetric] n_def[symmetric]
          a' b_def[symmetric])
    show ?thesis unfolding im sm trunc_nonneg[OF nn] ..
  qed
qed

theorem median_is_standard_witness:
  "[1, 2, 3, 4, 5, 6, 7, 8, 9, 10 :: int] \<noteq> []
   \<and> standard_median [1, 2, 3, 4, 5, 6, 7, 8, 9, 10] = 11 / 2
   \<and> int_median [1, 2, 3, 4, 5, 6, 7, 8, 9, 10] = Inr 5"
  using median_is_standard[of "[1, 2, 3, 4, 5, 6, 7, 8, 9, 10]"]
  by (simp add: standard_median_def)

text \<open>
  C5 as stated, for every column, fails: for an even length the library averages the two
  middle values in floats, and for the column \<open>2^53 + 1, 2^53 + 2\<close> the average
  \<open>2^53 + 1.5\<close> is rounded to \<open>2^53 + 2\<close> before it is truncated.
\<close>

theorem median_is_standard_counterexample:
  "int_median [9007199254740993, 9007199254740994] = Inr 9007199254740994
   \<and> \<lfloor>standard_median [9007199254740993, 9007199254740994]\<rfloor> = 9007199254740993"
proof -
  have "round_unb (18014398509481987 / 2) = of_int 4503599627370497 * 2 powi 1"
    by (rule round_unb_near[where e = 53]) simp_all
  then have "round_double (18014398509481987 / 2) = Fin 9007199254740994"
    by (simp add: round_double_def)
  then have "int_truediv 18014398509481987 2 = Inr 9007199254740994"
    by (simp add: int_truediv_def)
  then have 1: "int_median [9007199254740993, 9007199254740994] = Inr 9007199254740994"
    by (simp add: int_median_def median_def)
  have 2: "\<lfloor>standard_median [9007199254740993, 9007199254740994]\<rfloor> = 9007199254740993"
    by (simp add: standard_median_def)
  from 1 2 show ?thesis by simp
qed

section \<open>Malformed histories\<close>

text \<open>
  C6, as amended: neither script validates the history; what fails is an index that is out
  of range or a number too large for a float. With an empty base-fee sequence both scripts
  raise \<open>IndexError\<close>. With a rewards tuple shorter than the entries that are read (four
  in the four-tier script, two in the one-tier script) the one-tier script raises
  \<open>IndexError\<close>, and so does the four-tier script, unless the next-block base fee is too
  large for a float: then the print of that fee, which comes first, raises
  \<open>OverflowError\<close>. In each case no recommendation is emitted.
\<close>

theorem malformed_history_raises:
  "(baseFeePerGas d = [] \<longrightarrow> predict_fees_script d = Inl IndexError)
   \<and> ((\<exists>r\<in>set (reward d). length r < 4) \<and> baseFeePerGas d \<noteq> []
        \<and> float_of_int (last (baseFeePerGas d)) \<noteq> Inl OverflowError
      \<longrightarrow> predict_fees_script d = Inl IndexError)
   \<and> ((\<exists>r\<in>set (reward d). length r < 4) \<and> baseFeePerGas d \<noteq> []
        \<and> float_of_int (last (baseFeePerGas d)) = Inl OverflowError
      \<longrightarrow> predict_fees_script d = Inl OverflowError)
   \<and> (baseFeePerGas h = [] \<or> (\<exists>r\<in>set (reward h). length r < 2)
      \<longrightarrow> calculate_fees h = Inl IndexError)"
proof (intro conjI impI)
  assume "baseFeePerGas d = []"
  then show "predict_fees_script d = Inl IndexError"
    by (simp add: predict_fees_script_def predict_fees_def py_last_def)
next
  assume h: "(\<exists>r\<in>set (reward d). length r < 4) \<and> baseFeePerGas d \<noteq> []
        \<and> float_of_int (last (baseFeePerGas d)) \<noteq> Inl OverflowError"
  then have a: "adjusted_tips d = Inl IndexError"
    by (simp add: adjusted_tips_def smoothed_tips_short)
  from h obtain f where "float_of_int (last (baseFeePerGas d)) = Inr f"
    using float_of_int_cases[of "last (baseFeePerGas d)"] by blast
  then show "predict_fees_script d = Inl IndexError"
    using h a by (simp add: predict_fees_script_def predict_fees_def py_last_def bind_gwei)
next
  assume h: "(\<exists>r\<in>set (reward d). length r < 4) \<and> baseFeePerGas d \<noteq> []
        \<and> float_of_int (last (baseFeePerGas d)) = Inl OverflowError"
  then show "predict_fees_script d = Inl OverflowError"
    by (simp add: predict_fees_script_def predict_fees_def py_last_def bind_gwei)
next
  assume "baseFeePerGas h = [] \<or> (\<exists>r\<in>set (reward h). length r < 2)"
  then show "calculate_fees h = Inl IndexError"
  proof
    assume "baseFeePerGas h = []"
    then show ?thesis by (simp add: calculate_fees_def py_last_def)
  next
    assume "\<exists>r\<in>set (reward h). length r < 2"
    then obtain r where r: "r \<in> set (reward h)" "length r < 2" by blast
    then have "length r \<le> 1" by simp
    with r(1) have "\<exists>r\<in>set (reward h). length r \<le> 1" by blast
    then have c: "column 1 (reward h) = Inl IndexError" by (rule column_short)
    show ?thesis
    proof (cases "baseFeePerGas h = []")
      case True
      then show ?thesis by (simp add: calculate_fees_def py_last_def)
    next
      case False
      show ?thesis
      proof (cases "is_increasing (baseFeePerGas h)")
        case (Inl e)
        then show ?thesis using is_increasing_error[OF Inl] False
          by (simp add: calculate_fees_def py_last_def)
      next
        case (Inr b)
        then show ?thesis using False c by (simp add: calculate_fees_def py_last_def)
      qed
    qed
  qed
qed

theorem malformed_history_raises_witness:
  "predict_fees_script (history_ok\<lparr>baseFeePerGas := []\<rparr>) = Inl IndexError
   \<and> length ([1, 2, 3] :: int list) < 4
   \<and> predict_fees_script (history_ok\<lparr>reward := [[1, 2, 3, 4], [1, 2, 3], [1, 2, 3, 4]]\<rparr>)
       = Inl IndexError
   \<and> predict_fees_script (history_ok\<lparr>baseFeePerGas := [2 ^ 1024],
         reward := [[1, 2, 3, 4], [1, 2, 3], [1, 2, 3, 4]]\<rparr>) = Inl OverflowError
   \<and> calculate_fees (history_ok\<lparr>baseFeePerGas := []\<rparr>) = Inl IndexError"
  using malformed_history_raises[of "history_ok\<lparr>baseFeePerGas := []\<rparr>"
      "history_ok\<lparr>baseFeePerGas := []\<rparr>"]
    malformed_history_raises[of "history_ok\<lparr>reward := [[1, 2, 3, 4], [1, 2, 3], [1, 2, 3, 4]]\<rparr>"]
    malformed_history_raises[of "history_ok\<lparr>baseFeePerGas := [2 ^ 1024],
         reward := [[1, 2, 3, 4], [1, 2, 3], [1, 2, 3, 4]]\<rparr>"]
    float_of_int_200 float_of_int_huge
  by (simp add: history_ok_def)

text \<open>
  C6 as stated fails: rewards tuples of inconsistent lengths, four and five entries, are
  accepted, and the four-tier script computes and prints its four recommendations from the
  leading entries.
\<close>

theorem malformed_history_raises_counterexample:
  "length ([1, 2, 3, 4] :: int list) \<noteq> length ([1, 2, 3, 4, 5] :: int list)
   \<and> reward history_ragged = [[1, 2, 3, 4], [1, 2, 3, 4, 5], [1, 2, 3, 4]]
   \<and> predict_fees_script history_ragged = Inr \<lparr>median_tip_30 = 1, median_tip_60 = 2,
     median_tip_75 = 3, median_tip_90 = 4, max_fee_saver = 254, max_fee_std = 322,
     max_fee_rec = 408, max_fee_urgent = 653\<rparr>"
  using predict_fees_ragged
  by (simp add: history_ragged_def predict_fees_script_def print_table_def print_row_small)

section \<open>The one-tier fee cap\<close>



lemma calculate_fees_ok:
  "calculate_fees history_ok = Inr \<lparr>base_fee_next = 200, priority_fee_suggested = 2,
     max_fee_per_gas = 402, congestion = Fin (1 / 2)\<rparr>"
  using max_fee_calc_2(2)[of 200 2]
  by (simp add: calculate_fees_def history_ok_def py_last_def is_increasing_def recent_window_def
      py_first_def int_median_odd3 avg_congestion_halves adjust_priority_fee_def
      base_fee_multiplier_def float_lits)




section \<open>The tier-ordering pass\<close>

text \<open>
  C3: the claim is what the script's own comment on the pass asks for, a minimum
  improvement in which Standard is 20% above Saver and Urgent at least 20% above Standard;
  the code does not deliver it. Each step of the pass is guarded by \<open>\<le>\<close> and fires only
  when a tier is not above the one below. For the history \<open>history_close\<close>, with medians
  100, 101, 200 and 300, the pass changes nothing: Standard stays at 101, 1% above Saver,
  while \<open>int(100 * 1.2) = 120\<close>.
\<close>

theorem pass_keeps_small_margin:
  "smoothed_tips history_close = Inr (100, 101, 200, 300)
   \<and> int_mul_float 100 (float_lit (12 / 10)) = Inr 120 \<and> \<not> (120::int) \<le> 101"
proof -
  have "smoothed_tips history_close = Inr (100, 101, 200, 300)"
    by (simp add: smoothed_tips_def history_close_def int_median_def median_def
        enforce_minimum_def)
  then show ?thesis using int_mul_float_100_12 by simp
qed

section \<open>The four tiers together\<close>

text \<open>
  C9: for every history of non-negative fees on which the four-tier script returns its
  tiers, the final, congestion-adjusted priority fees are non-decreasing from Saver to
  Urgent, and so are the final max fees.
\<close>

theorem tiers_nondecreasing:
  assumes run: "predict_fees d = Inr t"
    and rw: "\<forall>r\<in>set (reward d). \<forall>x\<in>set r. 0 \<le> x"
    and bf: "\<forall>x\<in>set (baseFeePerGas d). 0 \<le> x"
  shows "median_tip_30 t \<le> median_tip_60 t \<and> median_tip_60 t \<le> median_tip_75 t
    \<and> median_tip_75 t \<le> median_tip_90 t
    \<and> max_fee_saver t \<le> max_fee_std t \<and> max_fee_std t \<le> max_fee_rec t
    \<and> max_fee_rec t \<le> max_fee_urgent t"
proof -
  from run obtain n a30 a60 a75 a90 b2 b4 b6 b10 where
    n: "py_last (baseFeePerGas d) = Inr n"
    and a: "adjusted_tips d = Inr (a30, a60, a75, a90)"
    and b: "calculate_max_base_fee n 2 = Inr b2" "calculate_max_base_fee n 4 = Inr b4"
      "calculate_max_base_fee n 6 = Inr b6" "calculate_max_base_fee n 10 = Inr b10"
    and t: "t = \<lparr>median_tip_30 = a30, median_tip_60 = a60, median_tip_75 = a75,
      median_tip_90 = a90, max_fee_saver = b2 + a30, max_fee_std = b4 + a60,
      max_fee_rec = b6 + a75, max_fee_urgent = b10 + a90\<rparr>"
    by (auto simp: predict_fees_def py_bind_eq_Inr split: prod.splits)
  from a obtain t30 t60 t75 t90 avg where
    s: "smoothed_tips d = Inr (t30, t60, t75, t90)"
    and c: "apply_congestion (congestion_multiplier avg) (t30, t60, t75, t90)
            = Inr (a30, a60, a75, a90)"
    by (auto simp: adjusted_tips_def py_bind_eq_Inr split: prod.splits)
  from smoothed_tips_ordered[OF s rw]
  have o: "0 \<le> t30" "t30 \<le> t60" "t60 \<le> t75" "t75 \<le> t90" by simp_all
  from apply_congestion_ordered[OF c congestion_multiplier_nonneg o]
  have tips: "a30 \<le> a60" "a60 \<le> a75" "a75 \<le> a90" by simp_all
  have "n \<in> set (baseFeePerGas d)" using n by (auto simp: py_last_def split: if_splits)
  then have n0: "0 \<le> n" using bf by blast
  have "b2 \<le> b4" "b4 \<le> b6" "b6 \<le> b10"
    using project_mono[OF n0 _ _ b(1,2)] project_mono[OF n0 _ _ b(2,3)]
      project_mono[OF n0 _ _ b(3,4)]
    by simp_all
  with tips show ?thesis by (simp add: t)
qed

theorem tiers_nondecreasing_witness:
  "predict_fees history_ok = Inr \<lparr>median_tip_30 = 1, median_tip_60 = 2, median_tip_75 = 3,
     median_tip_90 = 4, max_fee_saver = 254, max_fee_std = 322, max_fee_rec = 408,
     max_fee_urgent = 653\<rparr>
   \<and> (1::int) \<le> 2 \<and> (2::int) \<le> 3 \<and> (3::int) \<le> 4
   \<and> (254::int) \<le> 322 \<and> (322::int) \<le> 408 \<and> (408::int) \<le> 653"
proof -
  have rw: "\<forall>r\<in>set (reward history_ok). \<forall>x\<in>set r. 0 \<le> x" by (simp add: history_ok_def)
  have bf: "\<forall>x\<in>set (baseFeePerGas history_ok). 0 \<le> x" by (simp add: history_ok_def)
  from tiers_nondecreasing[OF predict_fees_ok rw bf] predict_fees_ok show ?thesis by simp
qed

section \<open>The fee caps\<close>

text \<open>
  C1, as amended: in the four-tier script, for every history on which it returns its tiers,
  each tier's fee cap is the projected base fee \<open>k\<close> blocks ahead (\<open>k\<close> = 2, 4, 6, 10 for
  Saver, Standard, Recommended, Urgent) plus that tier's congestion-adjusted priority fee;
  for a next-block base fee from 0 to below \<open>2^49\<close> the projected base fee is
  \<open>floor(nextBlockBaseFee * 1.125^k)\<close> or one more. The one-tier script is left out: its cap
  is not a projection by \<open>1.125^k\<close>.
\<close>

theorem four_tier_fee_caps:
  assumes run: "predict_fees d = Inr t"
    and n: "0 \<le> last (baseFeePerGas d)" "last (baseFeePerGas d) < 2 ^ 49"
  shows "adjusted_tips d = Inr (median_tip_30 t, median_tip_60 t, median_tip_75 t, median_tip_90 t)
    \<and> calculate_max_base_fee (last (baseFeePerGas d)) 2 = Inr (max_fee_saver t - median_tip_30 t)
    \<and> calculate_max_base_fee (last (baseFeePerGas d)) 4 = Inr (max_fee_std t - median_tip_60 t)
    \<and> calculate_max_base_fee (last (baseFeePerGas d)) 6 = Inr (max_fee_rec t - median_tip_75 t)
    \<and> calculate_max_base_fee (last (baseFeePerGas d)) 10 = Inr (max_fee_urgent t - median_tip_90 t)
    \<and> max_fee_saver t - median_tip_30 t - drift_floor (last (baseFeePerGas d)) 2 \<in> {0, 1}
    \<and> max_fee_std t - median_tip_60 t - drift_floor (last (baseFeePerGas d)) 4 \<in> {0, 1}
    \<and> max_fee_rec t - median_tip_75 t - drift_floor (last (baseFeePerGas d)) 6 \<in> {0, 1}
    \<and> max_fee_urgent t - median_tip_90 t - drift_floor (last (baseFeePerGas d)) 10 \<in> {0, 1}"
proof -
  define nb where "nb = last (baseFeePerGas d)"
  from run obtain a30 a60 a75 a90 b2 b4 b6 b10 where
    a: "adjusted_tips d = Inr (a30, a60, a75, a90)"
    and b: "calculate_max_base_fee nb 2 = Inr b2" "calculate_max_base_fee nb 4 = Inr b4"
      "calculate_max_base_fee nb 6 = Inr b6" "calculate_max_base_fee nb 10 = Inr b10"
    and t: "t = \<lparr>median_tip_30 = a30, median_tip_60 = a60, median_tip_75 = a75,
      median_tip_90 = a90, max_fee_saver = b2 + a30, max_fee_std = b4 + a60,
      max_fee_rec = b6 + a75, max_fee_urgent = b10 + a90\<rparr>"
    by (auto simp: predict_fees_def py_bind_eq_Inr py_last_def nb_def split: prod.splits if_splits)
  have r: "0 \<le> nb" "nb < 2 ^ 49" using n by (simp_all add: nb_def)
  have "b2 - drift_floor nb 2 \<in> {0, 1}" using project_near_floor[OF r, of 2] b(1) by auto
  moreover have "b4 - drift_floor nb 4 \<in> {0, 1}" using project_near_floor[OF r, of 4] b(2) by auto
  moreover have "b6 - drift_floor nb 6 \<in> {0, 1}" using project_near_floor[OF r, of 6] b(3) by auto
  moreover have "b10 - drift_floor nb 10 \<in> {0, 1}" using project_near_floor[OF r, of 10] b(4) by auto
  ultimately show ?thesis using a b by (simp add: t nb_def[symmetric])
qed

theorem four_tier_fee_caps_witness:
  "predict_fees history_ok = Inr \<lparr>median_tip_30 = 1, median_tip_60 = 2, median_tip_75 = 3,
     median_tip_90 = 4, max_fee_saver = 254, max_fee_std = 322, max_fee_rec = 408,
     max_fee_urgent = 653\<rparr>
   \<and> adjusted_tips history_ok = Inr (1, 2, 3, 4)
   \<and> calculate_max_base_fee 200 2 = Inr (254 - 1) \<and> calculate_max_base_fee 200 4 = Inr (322 - 2)
   \<and> calculate_max_base_fee 200 6 = Inr (408 - 3) \<and> calculate_max_base_fee 200 10 = Inr (653 - 4)
   \<and> drift_floor 200 2 = 253 \<and> drift_floor 200 4 = 320
   \<and> drift_floor 200 6 = 405 \<and> drift_floor 200 10 = 649"
proof -
  have n: "0 \<le> last (baseFeePerGas history_ok)" "last (baseFeePerGas history_ok) < 2 ^ 49"
    by (simp_all add: history_ok_def)
  have l: "last (baseFeePerGas history_ok) = 200" by (simp add: history_ok_def)
  have d: "drift_floor 200 2 = 253" "drift_floor 200 4 = 320" "drift_floor 200 6 = 405"
    "drift_floor 200 10 = 649" by (simp_all add: drift_floor_def power_divide)
  from four_tier_fee_caps[OF predict_fees_ok n] predict_fees_ok d show ?thesis
    unfolding l by simp
qed

text \<open>
  C1 as stated, for both scripts, fails on the one-tier script: for the history
  \<open>history_ok\<close> it returns a cap of 402 with a tip of 2 on a next-block base fee of 200,
  and no \<open>k\<close> projects 200 to 400: the projector gives 360 for \<open>k = 5\<close>, 405 for
  \<open>k = 6\<close>, and is monotone in \<open>k\<close> (\<open>project_200_never_400\<close>).
\<close>

theorem four_tier_fee_caps_counterexample:
  "calculate_fees history_ok = Inr \<lparr>base_fee_next = 200, priority_fee_suggested = 2,
     max_fee_per_gas = 402, congestion = Fin (1 / 2)\<rparr>
   \<and> calculate_max_base_fee 200 5 = Inr 360 \<and> (360::int) + 2 < 402
   \<and> calculate_max_base_fee 200 6 = Inr 405 \<and> (402::int) < 405 + 2"
  using calculate_fees_ok project_200_bracket by simp

section \<open>The congestion adjuster\<close>

text \<open>
  C4, as amended. Four-tier script, each tip \<open>t\<close> becoming \<open>int(t * multiplier)\<close>: with
  the mean utilisation between the thresholds (multiplier 1.0) a tip from 0 to \<open>2^53\<close> is
  unchanged; below the low threshold a tip \<open>\<ge> 1\<close> strictly decreases and a tip of 0 stays 0;
  above the high threshold no tip decreases and a tip \<open>\<ge> 4\<close> strictly increases. One-tier
  script: between the thresholds the tip is unchanged; below the low threshold a tip \<open>\<ge> 1\<close>
  strictly decreases and a tip of 0 stays 0; above the high threshold no tip decreases and a
  tip \<open>\<ge> 5\<close> strictly increases.
\<close>

theorem congestion_adjustment:
  "(\<not> flt avg (float_lit (45 / 100)) \<and> \<not> fgt avg (float_lit (80 / 100)) \<and> 0 \<le> t \<and> t \<le> 2 ^ 53
      \<longrightarrow> int_mul_float t (congestion_multiplier avg) = Inr t)
   \<and> (flt avg (float_lit (45 / 100)) \<and> 1 \<le> t \<and> int_mul_float t (congestion_multiplier avg) = Inr v
      \<longrightarrow> 0 \<le> v \<and> v < t)
   \<and> (flt avg (float_lit (45 / 100)) \<longrightarrow> int_mul_float 0 (congestion_multiplier avg) = Inr 0)
   \<and> (fgt avg (float_lit (80 / 100)) \<and> 0 \<le> t \<and> int_mul_float t (congestion_multiplier avg) = Inr v
      \<longrightarrow> t \<le> v \<and> (4 \<le> t \<longrightarrow> t < v))
   \<and> (\<not> fgt avg (float_lit (8 / 10)) \<and> \<not> flt avg (float_lit (3 / 10))
      \<longrightarrow> adjust_priority_fee avg t = Inr t)
   \<and> (flt avg (float_lit (3 / 10)) \<and> 1 \<le> t \<and> adjust_priority_fee avg t = Inr v
      \<longrightarrow> 0 \<le> v \<and> v < t)
   \<and> (flt avg (float_lit (3 / 10)) \<longrightarrow> adjust_priority_fee avg 0 = Inr 0)
   \<and> (fgt avg (float_lit (8 / 10)) \<and> 0 \<le> t \<and> adjust_priority_fee avg t = Inr v
      \<longrightarrow> t \<le> v \<and> (5 \<le> t \<longrightarrow> t < v))"
proof -
  have c1: "\<not> flt avg (float_lit (45 / 100)) \<and> \<not> fgt avg (float_lit (80 / 100)) \<and> 0 \<le> t
      \<and> t \<le> 2 ^ 53 \<longrightarrow> int_mul_float t (congestion_multiplier avg) = Inr t"
    using int_mul_float_1[of t] by (simp add: congestion_multiplier_def float_lit_1)
  have c2: "flt avg (float_lit (45 / 100)) \<and> 1 \<le> t
      \<and> int_mul_float t (congestion_multiplier avg) = Inr v \<longrightarrow> 0 \<le> v \<and> v < t"
  proof (rule impI)
    assume h: "flt avg (float_lit (45 / 100)) \<and> 1 \<le> t
      \<and> int_mul_float t (congestion_multiplier avg) = Inr v"
    then have a: "flt avg (float_lit (45 / 100))" by blast
    then have cm: "congestion_multiplier avg = float_lit (19 / 20)"
      by (simp add: congestion_multiplier_def)
    from h have "int_mul_float t (congestion_multiplier avg) = Inr v" by blast
    then have "int_mul_float t (float_lit (19 / 20)) = Inr v" by (simp only: cm)
    from int_mul_float_decreases[OF _ _ _ this] h show "0 \<le> v \<and> v < t" by (simp add: float_lits)
  qed
  have c3: "flt avg (float_lit (45 / 100)) \<longrightarrow> int_mul_float 0 (congestion_multiplier avg) = Inr 0"
    by (simp add: int_mul_float_0)
  have c4: "fgt avg (float_lit (80 / 100)) \<and> 0 \<le> t
      \<and> int_mul_float t (congestion_multiplier avg) = Inr v \<longrightarrow> t \<le> v \<and> (4 \<le> t \<longrightarrow> t < v)"
  proof (rule impI)
    assume h: "fgt avg (float_lit (80 / 100)) \<and> 0 \<le> t
      \<and> int_mul_float t (congestion_multiplier avg) = Inr v"
    then have a: "fgt avg (float_lit (4 / 5))" by simp
    then have "\<not> flt avg (float_lit (9 / 20))" using flt_fgt_exclusive_45[of avg] by auto
    with a have cm: "congestion_multiplier avg = 5 / 4"
      by (simp add: congestion_multiplier_def float_lits)
    from h have "int_mul_float t (congestion_multiplier avg) = Inr v" by blast
    then have r: "int_mul_float t (5 / 4) = Inr v" by (simp only: cm)
    from int_mul_float_grows[OF _ _ r] h have le: "t \<le> v" by simp
    have "4 \<le> t \<longrightarrow> t < v"
    proof
      assume "4 \<le> t"
      from int_mul_float_increases[OF _ _ increase_5_4[OF this] r] this show "t < v" by simp
    qed
    with le show "t \<le> v \<and> (4 \<le> t \<longrightarrow> t < v)" by blast
  qed
  have c5: "\<not> fgt avg (float_lit (8 / 10)) \<and> \<not> flt avg (float_lit (3 / 10))
      \<longrightarrow> adjust_priority_fee avg t = Inr t"
    by (simp add: adjust_priority_fee_def)
  have c6: "flt avg (float_lit (3 / 10)) \<and> 1 \<le> t \<and> adjust_priority_fee avg t = Inr v
      \<longrightarrow> 0 \<le> v \<and> v < t"
  proof (rule impI)
    assume h: "flt avg (float_lit (3 / 10)) \<and> 1 \<le> t \<and> adjust_priority_fee avg t = Inr v"
    then have a: "flt avg (float_lit (3 / 10))" by blast
    then have "\<not> fgt avg (float_lit (4 / 5))" using flt_fgt_exclusive_3[of avg] by auto
    with a have cm: "adjust_priority_fee avg t = int_mul_float t (float_lit (9 / 10))"
      by (simp add: adjust_priority_fee_def)
    from h have "adjust_priority_fee avg t = Inr v" by blast
    then have "int_mul_float t (float_lit (9 / 10)) = Inr v" by (simp only: cm)
    from int_mul_float_decreases[OF _ _ _ this] h show "0 \<le> v \<and> v < t" by (simp add: float_lits)
  qed
  have c7: "fgt avg (float_lit (8 / 10)) \<and> 0 \<le> t \<and> adjust_priority_fee avg t = Inr v
      \<longrightarrow> t \<le> v \<and> (5 \<le> t \<longrightarrow> t < v)"
  proof (rule impI)
    assume h: "fgt avg (float_lit (8 / 10)) \<and> 0 \<le> t \<and> adjust_priority_fee avg t = Inr v"
    then have a: "fgt avg (float_lit (4 / 5))" by simp
    then have cm: "adjust_priority_fee avg t = int_mul_float t (float_lit (6 / 5))"
      by (simp add: adjust_priority_fee_def)
    from h have "adjust_priority_fee avg t = Inr v" by blast
    then have r: "int_mul_float t (float_lit (6 / 5)) = Inr v" by (simp only: cm)
    have c: "9 / 8 \<le> float_lit (6 / 5)" by (simp add: float_lits)
    from int_mul_float_grows[OF _ c r] h have le: "t \<le> v" by simp
    have "5 \<le> t \<longrightarrow> t < v"
    proof
      assume t5: "5 \<le> t"
      show "t < v"
      proof (cases "t = 5")
        case True
        then show ?thesis using r int_mul_float_5_12 by simp
      next
        case False
        then have "6 \<le> t" using t5 by simp
        from int_mul_float_increases[OF _ c increase_6_5[OF this] r] this show ?thesis by simp
      qed
    qed
    with le show "t \<le> v \<and> (5 \<le> t \<longrightarrow> t < v)" by blast
  qed
  have c8: "flt avg (float_lit (3 / 10)) \<longrightarrow> adjust_priority_fee avg 0 = Inr 0"
    by (simp add: adjust_priority_fee_def int_mul_float_0)
  from c1 c2 c3 c4 c5 c6 c7 c8 show ?thesis by blast
qed

theorem congestion_adjustment_witness:
  "int_mul_float 2 (congestion_multiplier (Fin (1 / 2))) = Inr 2
   \<and> adjust_priority_fee (Fin (1 / 2)) 2 = Inr 2
   \<and> int_mul_float 4 (congestion_multiplier (Fin (1 / 4))) = Inr 3 \<and> (3::int) < 4
   \<and> int_mul_float 0 (congestion_multiplier (Fin (1 / 4))) = Inr 0
   \<and> adjust_priority_fee (Fin (1 / 4)) 4 = Inr 3
   \<and> adjust_priority_fee (Fin (1 / 4)) 0 = Inr 0
   \<and> int_mul_float 4 (congestion_multiplier (Fin (7 / 8))) = Inr 5 \<and> (4::int) < 5
   \<and> adjust_priority_fee (Fin (7 / 8)) 5 = Inr 6 \<and> (5::int) < 6"
proof -
  have lo: "congestion_multiplier (Fin (1 / 4)) = float_lit (19 / 20)"
    and hi: "congestion_multiplier (Fin (7 / 8)) = 5 / 4"
    by (simp_all add: congestion_multiplier_def float_lits)
  have l4: "int_mul_float 4 (congestion_multiplier (Fin (1 / 4))) = Inr 3"
    unfolding lo by (rule int_mul_float_discount(3))
  have h4: "int_mul_float 4 (congestion_multiplier (Fin (7 / 8))) = Inr 5"
    unfolding hi by (rule int_mul_float_5_4(4))
  have l1: "adjust_priority_fee (Fin (1 / 4)) 4 = Inr 3"
    using int_mul_float_discount(4) by (simp add: adjust_priority_fee_def float_lits)
  have h1: "adjust_priority_fee (Fin (7 / 8)) 5 = Inr 6"
    using int_mul_float_5_12 by (simp add: adjust_priority_fee_def float_lits)
  from congestion_adjustment[of "Fin (1 / 2)" 2 2] congestion_adjustment[of "Fin (1 / 4)" 4 3]
    congestion_adjustment[of "Fin (7 / 8)" 4 5] congestion_adjustment[of "Fin (7 / 8)" 5 6]
    l4 h4 l1 h1
  show ?thesis by (simp add: float_lits)
qed

text \<open>
  C4 as stated fails for small tips. With a mean utilisation of 7/8, above the high
  threshold, the tips 0, 1, 2 and 3 are all unchanged by the multiplier 1.25; with a mean
  of 1/4, below the low threshold, a tip of 0 stays 0.
\<close>

theorem congestion_adjustment_counterexample:
  "avg_congestion [7 / 8] = Inr (Fin (7 / 8))
   \<and> apply_congestion (congestion_multiplier (Fin (7 / 8))) (0, 1, 2, 3) = Inr (0, 1, 2, 3)
   \<and> avg_congestion [1 / 4] = Inr (Fin (1 / 4))
   \<and> apply_congestion (congestion_multiplier (Fin (1 / 4))) (0, 1, 2, 4) = Inr (0, 0, 1, 3)"
proof -
  have lo: "congestion_multiplier (Fin (1 / 4)) = float_lit (19 / 20)"
    and hi: "congestion_multiplier (Fin (7 / 8)) = 5 / 4"
    by (simp_all add: congestion_multiplier_def float_lits)
  have 1: "apply_congestion (congestion_multiplier (Fin (7 / 8))) (0, 1, 2, 3) = Inr (0, 1, 2, 3)"
    unfolding hi by (simp add: apply_congestion_def int_mul_float_0 int_mul_float_5_4)
  have 2: "apply_congestion (congestion_multiplier (Fin (1 / 4))) (0, 1, 2, 4) = Inr (0, 0, 1, 3)"
    unfolding lo by (simp add: apply_congestion_def int_mul_float_0 int_mul_float_discount)
  from 1 2 avg_congestion_single show ?thesis by simp
qed

end
